theory Spec2Isabelle
  imports Main "HOL-Library.Multiset"
begin

section \<open>Data model of package flow\<close>

text \<open>
  The engine of \<^verbatim>\<open>package flow\<close> (\<^verbatim>\<open>Info\<close>, \<^verbatim>\<open>Flow\<close>, \<^verbatim>\<open>Flow.Check\<close>,
  \<^verbatim>\<open>Flow.Start\<close>) is embedded below. The types \<^verbatim>\<open>WorkInfo\<close>, \<^verbatim>\<open>WorkRecord\<close>,
  \<^verbatim>\<open>data.CodeError\<close> and the interfaces the engine calls are declared in files that
  are not part of the sources at hand; their shape is read off the way \<^verbatim>\<open>Flow.Start\<close>
  uses them (\<^verbatim>\<open>err.Code\<close>, \<^verbatim>\<open>cause.Desc\<close>, \<^verbatim>\<open>workInfo.Work\<close>, \<^verbatim>\<open>workInfo.Data\<close>,
  \<^verbatim>\<open>record.Result.IsValid()\<close>, ...). A Go pointer that the code compares with
  \<^verbatim>\<open>nil\<close> is an \<open>option\<close>. Go's \<^verbatim>\<open>int\<close> is \<open>int\<close>: the engine only compares these
  numbers with 1 and counts list elements, so no operation comes near the 64-bit bounds.
\<close>

record CodeError =
  Code :: int
  Desc :: string

record WorkInfo =
  Data :: string
  Work :: "nat option"

record Result =
  Value :: string
  IsValid :: bool

record WorkRecord =
  WorkInfo :: "WorkInfo option"
  Result :: "Result option"
  Err :: "CodeError option"

text \<open>
  What the engine takes from the packages \<^verbatim>\<open>data\<close>, \<^verbatim>\<open>alert\<close> and from the file that
  declares \<^verbatim>\<open>UserCodeVerification\<close>: two error codes, the method
  \<^verbatim>\<open>(*CodeError).Error()\<close> (called on a pointer that may be nil), the constructor
  \<^verbatim>\<open>alert.CannotEmptyError\<close>, and the answer of the interactive verification. None of
  them is defined in the sources at hand, so they are parameters of the model.
\<close>

record Env =
  ErrorCodeParamMissing :: int
  ErrorCodeAlreadyDone :: int
  CodeError_Error :: "CodeError option \<Rightarrow> string"
  CannotEmptyError :: "string \<Rightarrow> string \<Rightarrow> CodeError"
  UserCodeVerification :: bool

text \<open>
  Modelled from the spec: \<^verbatim>\<open>data.NewError(code, desc)\<close> is not in the sources; the spec
  writes the engine's synthesised error as \<^verbatim>\<open>Error(AlreadyDone, desc)\<close>, a CodeError with
  that code and that description.
\<close>

definition NewError :: "int \<Rightarrow> string \<Rightarrow> CodeError" where
  "NewError code desc = \<lparr>Code = code, Desc = desc\<rparr>"

subsection \<open>The interfaces a Flow is composed of\<close>

text \<open>
  Each interface is a record of its methods. A method that only answers a question is a
  function; where the answer may change from call to call, the function takes what
  the answer can depend on: \<^verbatim>\<open>WorkProvider.Provide\<close> the number of earlier calls,
  \<^verbatim>\<open>Worker.DoWork\<close> the number of earlier calls on that worker,
  \<^verbatim>\<open>Overseer.GetWorkRecordIfHasDone\<close> the records handed to \<^verbatim>\<open>WorkDone\<close> so far.
  \<^verbatim>\<open>WorkerProvider.Provide\<close> is called once by each consumer and takes the consumer's
  index. Methods called for their effect only (\<^verbatim>\<open>OnWorkSkip\<close>, \<^verbatim>\<open>WorkDone\<close>,
  \<^verbatim>\<open>Acquire\<close>, ...) are entries of the call log, see \<open>Call\<close> below.
\<close>

record WorkProvider =
  WorkProvider_Provide :: "nat \<Rightarrow> bool \<times> WorkInfo option \<times> CodeError option"

record Worker =
  DoWork :: "nat \<Rightarrow> WorkInfo list \<Rightarrow> WorkRecord list \<times> CodeError option"

record WorkerProvider =
  WorkerProvider_Provide :: "nat \<Rightarrow> Worker \<times> CodeError option"

record AutoLimit =
  IsLimitError :: "int \<Rightarrow> CodeError option \<Rightarrow> bool"

record Overseer =
  GetWorkRecordIfHasDone :: "WorkRecord list \<Rightarrow> WorkInfo \<Rightarrow> bool \<times> WorkRecord option"

record Skipper =
  ShouldSkip :: "WorkInfo \<Rightarrow> bool \<times> CodeError option"

record Redo =
  ShouldRedo :: "WorkInfo \<Rightarrow> WorkRecord option \<Rightarrow> bool \<times> CodeError option"

record EventListener =
  FlowWillStartFunc :: "CodeError option option"
  FlowWillEndFunc :: "CodeError option option"
  WillWork :: "WorkInfo \<Rightarrow> bool \<times> CodeError option"

record Info =
  Force :: bool
  WorkerCount :: int
  StopWhenWorkError :: bool

text \<open>
  The struct \<^verbatim>\<open>Flow\<close>. Its unexported field \<^verbatim>\<open>workErrorHappened\<close> is written while the
  flow runs; it is a component of the run state \<open>state\<close> below and starts as Go's
  zero value.
\<close>

record Flow =
  Info :: Info
  WorkProvider :: "WorkProvider option"
  WorkerProvider :: "WorkerProvider option"
  DoWorkInfoListMaxCount :: int
  Limit :: "AutoLimit option"
  EventListener :: EventListener
  Overseer :: "Overseer option"
  Skipper :: "Skipper option"
  Redo :: "Redo option"

section \<open>Info.Check and Flow.Check\<close>

text \<open>
  Both methods repair their receiver in place and return an error pointer; the model
  returns the repaired receiver with the error.
\<close>

definition Info_Check :: "Info \<Rightarrow> Info \<times> CodeError option" where
  "Info_Check i =
     ((if WorkerCount i < 1 then i\<lparr>WorkerCount := 1\<rparr> else i), None)"

definition Flow_Check :: "Env \<Rightarrow> Flow \<Rightarrow> Flow \<times> CodeError option" where
  "Flow_Check E f =
     (case Info_Check (Info f) of (i, err) \<Rightarrow>
        let f1 = f\<lparr>Info := i\<rparr> in
        (case err of
           Some e \<Rightarrow> (f1, Some e)
         | None \<Rightarrow>
            (case WorkProvider f1 of
               None \<Rightarrow> (f1, Some (CannotEmptyError E ''WorkProvider'' ''''))
             | Some _ \<Rightarrow>
                (case WorkerProvider f1 of
                   None \<Rightarrow> (f1, Some (CannotEmptyError E ''WorkerProvider'' ''''))
                 | Some _ \<Rightarrow>
                    ((if DoWorkInfoListMaxCount f1 < 1
                      then f1\<lparr>DoWorkInfoListMaxCount := 1\<rparr> else f1), None)))))"

section \<open>The call log\<close>

text \<open>
  Every call the engine makes on one of its collaborators, and every operation on the
  batch channel, is an entry of a log, in the order the calls are made. The entries
  \<open>OnWorkSkip\<close>, \<open>OnWorkFail\<close> and \<open>OnWorkSuccess\<close> are the terminal listener events.
  The suffix \<open>_call\<close> marks a call whose answer the engine uses; the answer is given by
  the interface's function. \<open>Sleep n\<close> is \<^verbatim>\<open>time.Sleep\<close> for \<open>n\<close> milliseconds, \<open>Send\<close>
  and \<open>Close\<close> are the operations on \<^verbatim>\<open>workChan\<close>. Calls of the logger are left out.
\<close>

datatype Call =
    Provide_call
  | ShouldSkip_call WorkInfo
  | GetWorkRecordIfHasDone_call WorkInfo
  | ShouldRedo_call WorkInfo "WorkRecord option"
  | WillWork_call WorkInfo
  | OnWorkSkip "WorkInfo option" "Result option" "CodeError option"
  | OnWorkFail "WorkInfo option" "CodeError option"
  | OnWorkSuccess "WorkInfo option" "Result option"
  | WorkDone WorkRecord
  | Send "WorkInfo list"
  | Close
  | WorkerProvider_call nat
  | Acquire int
  | DoWork_call nat "WorkInfo list"
  | Release int
  | AddLimitCount int
  | Sleep int
  | FlowWillStart_call
  | FlowWillEnd_call

section \<open>The producer: admission of one WorkInfo\<close>

text \<open>
  Lines 101 to 138 of \<^verbatim>\<open>Flow.Start\<close>, for a \<^verbatim>\<open>workInfo\<close> that is not nil and whose
  \<^verbatim>\<open>Work\<close> is not nil. Each of the three checks either ends the iteration
  (\<^verbatim>\<open>continue\<close>) or falls through to the next one. \<open>Panicked\<close> is the nil dereference
  of \<^verbatim>\<open>workRecord.Result\<close> when the overseer answers \<^verbatim>\<open>(true, nil)\<close>.
\<close>

datatype Admission = Admitted | Skipped | Panicked

definition check_Skipper :: "Flow \<Rightarrow> WorkInfo \<Rightarrow> Call list \<times> Admission" where
  "check_Skipper f workInfo =
     (case Skipper f of
        None \<Rightarrow> ([], Admitted)
      | Some sk \<Rightarrow>
         (case ShouldSkip sk workInfo of (skip, cause) \<Rightarrow>
            if skip
            then ([ShouldSkip_call workInfo, OnWorkSkip (Some workInfo) None cause], Skipped)
            else ([ShouldSkip_call workInfo], Admitted)))"

definition already_done_cause :: "Env \<Rightarrow> CodeError option \<Rightarrow> CodeError" where
  "already_done_cause E cause =
     (case cause of
        None \<Rightarrow> NewError (ErrorCodeAlreadyDone E) ''already done''
      | Some c \<Rightarrow> c) \<lparr>Code := ErrorCodeAlreadyDone E\<rparr>"

definition check_Overseer ::
  "Env \<Rightarrow> Flow \<Rightarrow> WorkRecord list \<Rightarrow> WorkInfo \<Rightarrow> Call list \<times> Admission" where
  "check_Overseer E f recorded workInfo =
     (case Overseer f of
        None \<Rightarrow> ([], Admitted)
      | Some ov \<Rightarrow>
         (case GetWorkRecordIfHasDone ov recorded workInfo of (hasDone, workRecord) \<Rightarrow>
            if hasDone then
              (case Redo f of
                 None \<Rightarrow>
                  (case workRecord of
                     None \<Rightarrow> ([GetWorkRecordIfHasDone_call workInfo], Panicked)
                   | Some r \<Rightarrow>
                      ([GetWorkRecordIfHasDone_call workInfo,
                        OnWorkSkip (Some workInfo) (Result r)
                          (Some (NewError (ErrorCodeAlreadyDone E) (CodeError_Error E (Err r))))],
                       Skipped))
               | Some rd \<Rightarrow>
                  (case ShouldRedo rd workInfo workRecord of (shouldRedo, cause) \<Rightarrow>
                     if \<not> shouldRedo then
                       (case workRecord of
                          None \<Rightarrow>
                           ([GetWorkRecordIfHasDone_call workInfo,
                             ShouldRedo_call workInfo workRecord], Panicked)
                        | Some r \<Rightarrow>
                           ([GetWorkRecordIfHasDone_call workInfo,
                             ShouldRedo_call workInfo workRecord,
                             OnWorkSkip (Some workInfo) (Result r)
                               (Some (already_done_cause E cause))],
                            Skipped))
                     else
                       ([GetWorkRecordIfHasDone_call workInfo,
                         ShouldRedo_call workInfo workRecord], Admitted)))
            else ([GetWorkRecordIfHasDone_call workInfo], Admitted)))"

definition check_WillWork :: "Flow \<Rightarrow> WorkInfo \<Rightarrow> Call list \<times> Admission" where
  "check_WillWork f workInfo =
     (case WillWork (EventListener f) workInfo of (shouldContinue, e) \<Rightarrow>
        if \<not> shouldContinue
        then ([WillWork_call workInfo, OnWorkSkip (Some workInfo) None e], Skipped)
        else ([WillWork_call workInfo], Admitted))"

definition admit ::
  "Env \<Rightarrow> Flow \<Rightarrow> WorkRecord list \<Rightarrow> WorkInfo \<Rightarrow> Call list \<times> Admission" where
  "admit E f recorded workInfo =
     (case check_Skipper f workInfo of
        (c1, Admitted) \<Rightarrow>
         (case check_Overseer E f recorded workInfo of
            (c2, Admitted) \<Rightarrow>
             (case check_WillWork f workInfo of (c3, a) \<Rightarrow> (c1 @ c2 @ c3, a))
          | (c2, a) \<Rightarrow> (c1 @ c2, a))
      | (c1, a) \<Rightarrow> (c1, a))"

section \<open>The producer: one iteration of its loop\<close>

text \<open>
  The producer goroutine is in one of these places: at the head of its loop with the
  buffer \<^verbatim>\<open>workList\<close>; blocked in \<^verbatim>\<open>workChan <- workList\<close> inside the loop (line 142)
  or after it (line 148); about to \<^verbatim>\<open>close(workChan)\<close>; or at its end.
\<close>

datatype Producer =
    Looping "WorkInfo list"
  | Sending "WorkInfo list"
  | Flushing "WorkInfo list"
  | Closing
  | Ended

definition after_loop :: "WorkInfo list \<Rightarrow> Producer" where
  "after_loop workList = (if length workList > 0 then Flushing workList else Closing)"

text \<open>
  Lines 83 to 145: one pass through the loop body, from the call of \<^verbatim>\<open>Provide\<close> (the
  \<open>n\<close>-th one) to the next place of the producer. The result \<open>None\<close> is a panic.
\<close>

definition producer_iteration ::
  "Env \<Rightarrow> Flow \<Rightarrow> WorkProvider \<Rightarrow> WorkRecord list \<Rightarrow> nat \<Rightarrow> WorkInfo list
     \<Rightarrow> Call list \<times> Producer option" where
  "producer_iteration E f wp recorded n workList =
     (case WorkProvider_Provide wp n of (hasMore, workInfo, err) \<Rightarrow>
        (case err of
           Some e \<Rightarrow>
            (if Code e = ErrorCodeParamMissing E
             then ([Provide_call, OnWorkSkip workInfo None (Some e)], Some (Looping workList))
             else ([Provide_call, OnWorkFail workInfo (Some e)], Some (Looping workList)))
         | None \<Rightarrow>
            (case (case workInfo of None \<Rightarrow> None
                   | Some w \<Rightarrow> (case Work w of None \<Rightarrow> None | Some _ \<Rightarrow> Some w)) of
               None \<Rightarrow>
                (if \<not> hasMore then ([Provide_call], Some (after_loop workList))
                 else ([Provide_call], Some (Looping workList)))
             | Some w \<Rightarrow>
                (case admit E f recorded w of
                   (cs, Skipped) \<Rightarrow> (Provide_call # cs, Some (Looping workList))
                 | (cs, Panicked) \<Rightarrow> (Provide_call # cs, None)
                 | (cs, Admitted) \<Rightarrow>
                    (let workList' = workList @ [w] in
                     if int (length workList') \<ge> DoWorkInfoListMaxCount f
                     then (Provide_call # cs, Some (Sending workList'))
                     else (Provide_call # cs, Some (Looping workList')))))))"

section \<open>The consumer: one batch\<close>

text \<open>Lines 212 to 214: the batch error as fallback error of a record.\<close>

definition fallback :: "CodeError option \<Rightarrow> WorkRecord \<Rightarrow> WorkRecord" where
  "fallback workErr record =
     (if (case Result record of None \<Rightarrow> True | Some r \<Rightarrow> \<not> IsValid r) \<and> Err record = None
      then record\<lparr>Err := workErr\<rparr> else record)"

text \<open>
  Lines 183 to 200, \<^verbatim>\<open>resultHandler\<close>. The assignment \<^verbatim>\<open>f.workErrorHappened = true\<close>
  that follows \<^verbatim>\<open>OnWorkFail\<close> is made by the consumer's step, see \<open>consumer_step\<close>.
\<close>

definition resultHandler :: "Flow \<Rightarrow> WorkRecord \<Rightarrow> Call list" where
  "resultHandler f workRecord =
     (case Overseer f of
        None \<Rightarrow> []
      | Some _ \<Rightarrow>
         [WorkDone \<lparr>WorkInfo = WorkInfo workRecord, Result = Result workRecord,
                    Err = Err workRecord\<rparr>])
     @ (case Err workRecord of
          Some e \<Rightarrow> [OnWorkFail (WorkInfo workRecord) (Some e)]
        | None \<Rightarrow> [OnWorkSuccess (WorkInfo workRecord) (Result workRecord)])"

text \<open>Lines 202 to 208, \<^verbatim>\<open>isHitLimit\<close>.\<close>

definition isHitLimit :: "Flow \<Rightarrow> WorkRecord \<Rightarrow> bool" where
  "isHitLimit f workRecord =
     (case Limit f of None \<Rightarrow> False | Some l \<Rightarrow> IsLimitError l 0 (Err workRecord))"

text \<open>
  Lines 210 to 219: the loop over \<^verbatim>\<open>workRecordList\<close>, with \<^verbatim>\<open>hitLimitCount\<close> as
  accumulator. It returns the calls made and the final count.
\<close>

fun handle_records ::
  "Flow \<Rightarrow> CodeError option \<Rightarrow> WorkRecord list \<Rightarrow> int \<Rightarrow> Call list \<times> int" where
  "handle_records f workErr [] hitLimitCount = ([], hitLimitCount)"
| "handle_records f workErr (record # rest) hitLimitCount =
     (let r = fallback workErr record;
          cs = resultHandler f r;
          h = (if isHitLimit f r then hitLimitCount + 1 else hitLimitCount)
      in case handle_records f workErr rest h of (cs', h') \<Rightarrow> (cs @ cs', h'))"

text \<open>Lines 221 to 228: the permits go back, and the consumer backs off.\<close>

definition after_records :: "Flow \<Rightarrow> WorkInfo list \<Rightarrow> int \<Rightarrow> Call list" where
  "after_records f workList hitLimitCount =
     (case Limit f of
        None \<Rightarrow> []
      | Some _ \<Rightarrow>
         Release (int (length workList))
         # (if hitLimitCount > 0
            then [AddLimitCount (-1 * hitLimitCount), Sleep 1500] else []))"

text \<open>
  Lines 172 to 228: the calls a consumer makes for the batch \<^verbatim>\<open>workList\<close> it has
  received, in order, and whether it leaves its loop at line 180 (\<open>True\<close>). \<open>n\<close> is the
  number of earlier \<^verbatim>\<open>DoWork\<close> calls on this worker, \<open>index\<close> the consumer's index.
  \<^verbatim>\<open>Acquire\<close> is taken to return.
\<close>

definition consumer_iteration ::
  "Flow \<Rightarrow> Worker \<Rightarrow> nat \<Rightarrow> nat \<Rightarrow> WorkInfo list \<Rightarrow> Call list \<times> bool" where
  "consumer_iteration f worker index n workList =
     (let acquire = (case Limit f of None \<Rightarrow> []
                     | Some _ \<Rightarrow> [Acquire (int (length workList))])
      in case DoWork worker n workList of (workRecordList, workErr) \<Rightarrow>
           if length workRecordList = 0 \<and> workErr \<noteq> None
           then (acquire @ [DoWork_call index workList], True)
           else (case handle_records f workErr workRecordList 0 of (cs, hitLimitCount) \<Rightarrow>
                   (acquire @ [DoWork_call index workList] @ cs
                      @ after_records f workList hitLimitCount, False)))"

section \<open>Flow.Start: producer, consumers and the waiting caller\<close>

text \<open>
  A consumer goroutine is in one of these places: created and not yet run; at the head
  of \<^verbatim>\<open>for workList := range workChan\<close> with its worker and the number of \<^verbatim>\<open>DoWork\<close>
  calls made on it; inside the loop body with the calls it still has to make for the
  current batch (and whether it then leaves at line 180); gone through \<^verbatim>\<open>wait.Done()\<close>
  at line 236; or gone through the \<^verbatim>\<open>return\<close> at line 164.
\<close>

datatype Consumer =
    Created
  | Idle Worker nat
  | Busy Worker nat "Call list" bool
  | Exited
  | Failed

datatype Caller = Waiting | Returned

text \<open>
  The state of a running flow: the call log, the number of \<^verbatim>\<open>WorkProvider.Provide\<close>
  calls made, the producer, the buffered channel \<^verbatim>\<open>workChan\<close> (a queue of batches and
  whether it is closed), the consumers by index, the counter of the WaitGroup \<^verbatim>\<open>wait\<close>,
  the field \<^verbatim>\<open>f.workErrorHappened\<close>, the flag that \<^verbatim>\<open>workspace.IsCmdInterrupt()\<close> reads,
  the goroutine that called \<^verbatim>\<open>Start\<close>, and whether a goroutine has panicked (which ends
  a Go process).
\<close>

record state =
  calls :: "Call list"
  provided :: nat
  producer :: Producer
  workChan :: "WorkInfo list list"
  workChanClosed :: bool
  consumers :: "Consumer list"
  wait :: int
  workErrorHappened :: bool
  interrupt :: bool
  caller :: Caller
  panicked :: bool

text \<open>The records handed to \<^verbatim>\<open>Overseer.WorkDone\<close> so far, oldest first.\<close>

fun recorded :: "Call list \<Rightarrow> WorkRecord list" where
  "recorded [] = []"
| "recorded (WorkDone r # cs) = r # recorded cs"
| "recorded (_ # cs) = recorded cs"

text \<open>
  One step of the producer. An iteration of its loop is one step: it reads shared state
  once (the overseer's answer). A send on \<^verbatim>\<open>workChan\<close>, whose capacity is
  \<^verbatim>\<open>f.Info.WorkerCount\<close>, is a step of its own that can only be taken while the queue
  has room; until then the producer is blocked and the step changes nothing.
\<close>

definition producer_step :: "Env \<Rightarrow> Flow \<Rightarrow> state \<Rightarrow> state" where
  "producer_step E f s =
     (case producer s of
        Looping workList \<Rightarrow>
         (case WorkProvider f of
            None \<Rightarrow> s\<lparr>panicked := True\<rparr>
          | Some wp \<Rightarrow>
             (case producer_iteration E f wp (recorded (calls s)) (provided s) workList of
                (cs, None) \<Rightarrow>
                 s\<lparr>calls := calls s @ cs, provided := Suc (provided s), panicked := True\<rparr>
              | (cs, Some p) \<Rightarrow>
                 s\<lparr>calls := calls s @ cs, provided := Suc (provided s), producer := p\<rparr>))
      | Sending workList \<Rightarrow>
         (if int (length (workChan s)) < WorkerCount (Info f)
          then s\<lparr>calls := calls s @ [Send workList],
                 workChan := workChan s @ [workList], producer := Looping []\<rparr>
          else s)
      | Flushing workList \<Rightarrow>
         (if int (length (workChan s)) < WorkerCount (Info f)
          then s\<lparr>calls := calls s @ [Send workList],
                 workChan := workChan s @ [workList], producer := Closing\<rparr>
          else s)
      | Closing \<Rightarrow>
         s\<lparr>calls := calls s @ [Close], workChanClosed := True, producer := Ended\<rparr>
      | Ended \<Rightarrow> s)"

text \<open>Line 236, \<^verbatim>\<open>wait.Done()\<close>, as the last act of consumer \<open>i\<close>.\<close>

definition wait_Done :: "nat \<Rightarrow> state \<Rightarrow> state" where
  "wait_Done i s = s\<lparr>consumers := (consumers s)[i := Exited], wait := wait s - 1\<rparr>"

fun is_OnWorkFail :: "Call \<Rightarrow> bool" where
  "is_OnWorkFail (OnWorkFail w e) = True"
| "is_OnWorkFail _ = False"

text \<open>
  One step of consumer \<open>i\<close>: it creates its worker (lines 161 to 165); or it receives a
  batch, looks at the interrupt flag and runs \<^verbatim>\<open>DoWork\<close> (lines 167 to 181; with an
  empty open channel it is blocked); or it makes the next call for its batch, setting
  \<^verbatim>\<open>f.workErrorHappened\<close> after \<^verbatim>\<open>OnWorkFail\<close>; or, the batch done, it decides at
  line 231 whether to go on.
\<close>

definition consumer_step :: "Flow \<Rightarrow> nat \<Rightarrow> state \<Rightarrow> state" where
  "consumer_step f i s =
     (if i < length (consumers s) then
        (case consumers s ! i of
           Created \<Rightarrow>
            (case WorkerProvider f of
               None \<Rightarrow> s\<lparr>panicked := True\<rparr>
             | Some p \<Rightarrow>
                (case WorkerProvider_Provide p i of (worker, err) \<Rightarrow>
                   (case err of
                      Some e \<Rightarrow>
                       s\<lparr>calls := calls s @ [WorkerProvider_call i],
                         consumers := (consumers s)[i := Failed]\<rparr>
                    | None \<Rightarrow>
                       s\<lparr>calls := calls s @ [WorkerProvider_call i],
                         consumers := (consumers s)[i := Idle worker 0]\<rparr>)))
         | Idle worker n \<Rightarrow>
            (case workChan s of
               [] \<Rightarrow> (if workChanClosed s then wait_Done i s else s)
             | workList # rest \<Rightarrow>
                (if interrupt s then wait_Done i (s\<lparr>workChan := rest\<rparr>)
                 else (case consumer_iteration f worker i n workList of (cs, brk) \<Rightarrow>
                         s\<lparr>workChan := rest,
                           consumers := (consumers s)[i := Busy worker (Suc n) cs brk]\<rparr>)))
         | Busy worker n pending brk \<Rightarrow>
            (case pending of
               c # cs \<Rightarrow>
                s\<lparr>calls := calls s @ [c],
                  workErrorHappened := (workErrorHappened s \<or> is_OnWorkFail c),
                  consumers := (consumers s)[i := Busy worker n cs brk]\<rparr>
             | [] \<Rightarrow>
                (if brk \<or> (workErrorHappened s \<and> StopWhenWorkError (Info f))
                 then wait_Done i s
                 else s\<lparr>consumers := (consumers s)[i := Idle worker n]\<rparr>))
         | Exited \<Rightarrow> s
         | Failed \<Rightarrow> s)
      else s)"

text \<open>
  Lines 240 to 249: \<^verbatim>\<open>wait.Wait()\<close> returns once the counter is zero; then the end hook
  runs, if there is one, and \<^verbatim>\<open>Start\<close> returns.
\<close>

definition caller_step :: "Flow \<Rightarrow> state \<Rightarrow> state" where
  "caller_step f s =
     (if caller s = Waiting \<and> wait s = 0 then
        (case FlowWillEndFunc (EventListener f) of
           None \<Rightarrow> s\<lparr>caller := Returned\<rparr>
         | Some _ \<Rightarrow> s\<lparr>calls := calls s @ [FlowWillEnd_call], caller := Returned\<rparr>)
      else s)"

text \<open>
  The goroutines run concurrently. A run is a schedule: the list of the goroutines that
  take the next step, in order; \<open>Signal\<close> is the signal handler raising the interrupt
  flag. A goroutine that is blocked or gone leaves the state as it is. Quantifying over
  all schedules covers every interleaving.
\<close>

datatype Goroutine = ProducerG | ConsumerG nat | CallerG | Signal

definition step :: "Env \<Rightarrow> Flow \<Rightarrow> Goroutine \<Rightarrow> state \<Rightarrow> state" where
  "step E f g s =
     (if panicked s then s
      else (case g of
              ProducerG \<Rightarrow> producer_step E f s
            | ConsumerG i \<Rightarrow> consumer_step f i s
            | CallerG \<Rightarrow> caller_step f s
            | Signal \<Rightarrow> s\<lparr>interrupt := True\<rparr>))"

definition run :: "Env \<Rightarrow> Flow \<Rightarrow> Goroutine list \<Rightarrow> state \<Rightarrow> state" where
  "run E f sched s = fold (step E f) sched s"

text \<open>
  The state at line 157, after the goroutines have been started: \<^verbatim>\<open>wait.Add\<close> has set
  the counter to the number of consumers.
\<close>

definition started :: "Flow \<Rightarrow> state" where
  "started f =
     \<lparr>calls = (case FlowWillStartFunc (EventListener f) of
                 None \<Rightarrow> [] | Some _ \<Rightarrow> [FlowWillStart_call]),
      provided = 0, producer = Looping [], workChan = [], workChanClosed = False,
      consumers = replicate (nat (WorkerCount (Info f))) Created,
      wait = WorkerCount (Info f), workErrorHappened = False, interrupt = False,
      caller = Waiting, panicked = False\<rparr>"

text \<open>The state when \<^verbatim>\<open>Start\<close> returns at line 61, 65 or 71: no goroutine was started.\<close>

definition not_started :: "Call list \<Rightarrow> state" where
  "not_started cs =
     \<lparr>calls = cs, provided = 0, producer = Ended, workChan = [], workChanClosed = False,
      consumers = [], wait = 0, workErrorHappened = False, interrupt = False,
      caller = Returned, panicked = False\<rparr>"

text \<open>\<^verbatim>\<open>Flow.Start\<close> under a schedule: the state the schedule leads to.\<close>

definition Start :: "Env \<Rightarrow> Flow \<Rightarrow> Goroutine list \<Rightarrow> state" where
  "Start E f sched =
     (case Flow_Check E f of
        (f1, Some e) \<Rightarrow> not_started []
      | (f1, None) \<Rightarrow>
         (if \<not> Force (Info f1) \<and> \<not> UserCodeVerification E then not_started []
          else (case FlowWillStartFunc (EventListener f1) of
                  Some (Some err) \<Rightarrow> not_started [FlowWillStart_call]
                | _ \<Rightarrow> run E f1 sched (started f1))))"

section \<open>Reading the call log\<close>

text \<open>The WorkInfo a terminal listener event is about; other calls have none.\<close>

fun terminal_info :: "Call \<Rightarrow> WorkInfo option list" where
  "terminal_info (OnWorkSkip w r e) = [w]"
| "terminal_info (OnWorkFail w e) = [w]"
| "terminal_info (OnWorkSuccess w r) = [w]"
| "terminal_info _ = []"

definition terminal_infos :: "Call list \<Rightarrow> WorkInfo option list" where
  "terminal_infos cs = concat (map terminal_info cs)"

fun is_OnWorkSkip :: "Call \<Rightarrow> bool" where
  "is_OnWorkSkip (OnWorkSkip w r e) = True"
| "is_OnWorkSkip _ = False"

text \<open>
  The position of a call in the admission of one WorkInfo: the Skipper's question, the
  Overseer's, the Redo's, the listener's \<^verbatim>\<open>WillWork\<close>, and the skip event.
\<close>

fun stage :: "Call \<Rightarrow> nat" where
  "stage (ShouldSkip_call w) = 1"
| "stage (GetWorkRecordIfHasDone_call w) = 2"
| "stage (ShouldRedo_call w r) = 3"
| "stage (WillWork_call w) = 4"
| "stage (OnWorkSkip w r e) = 5"
| "stage _ = 0"

section \<open>The three admission checks in the words of the specification\<close>

text \<open>
  The specification's admission order: (1) the Skipper, if there is one, does not skip;
  (2) the Overseer, if there is one, does not report the work as done, or the Redo, if
  there is one, asks for it to be done again; (3) \<^verbatim>\<open>WillWork\<close> answers that the engine
  may continue.
\<close>

definition passes_Skipper :: "Flow \<Rightarrow> WorkInfo \<Rightarrow> bool" where
  "passes_Skipper f w =
     (case Skipper f of None \<Rightarrow> True | Some sk \<Rightarrow> \<not> fst (ShouldSkip sk w))"

definition passes_Overseer :: "Flow \<Rightarrow> WorkRecord list \<Rightarrow> WorkInfo \<Rightarrow> bool" where
  "passes_Overseer f past w =
     (case Overseer f of
        None \<Rightarrow> True
      | Some ov \<Rightarrow>
         (case GetWorkRecordIfHasDone ov past w of (hasDone, prior) \<Rightarrow>
            \<not> hasDone
            \<or> (case Redo f of None \<Rightarrow> False | Some rd \<Rightarrow> fst (ShouldRedo rd w prior))))"

definition passes_WillWork :: "Flow \<Rightarrow> WorkInfo \<Rightarrow> bool" where
  "passes_WillWork f w = fst (WillWork (EventListener f) w)"

section \<open>The consumer's batch in the words of the specification\<close>


text \<open>
  The number K of records of a batch whose error, the fallback error included, the
  limiter classifies as a limit error.
\<close>

definition limit_errors :: "AutoLimit \<Rightarrow> CodeError option \<Rightarrow> WorkRecord list \<Rightarrow> int" where
  "limit_errors l workErr records =
     int (length (filter (\<lambda>r. IsLimitError l 0 (Err (fallback workErr r))) records))"

fun is_limit_response :: "Call \<Rightarrow> bool" where
  "is_limit_response (Release n) = True"
| "is_limit_response (AddLimitCount n) = True"
| "is_limit_response (Sleep n) = True"
| "is_limit_response _ = False"

section \<open>What a state holds, and what the flow was given\<close>

text \<open>The batches of the \<open>Send\<close> entries of a log, in order.\<close>

fun sent_batch :: "Call \<Rightarrow> WorkInfo list list" where
  "sent_batch (Send b) = [b]"
| "sent_batch _ = []"

definition sent :: "Call list \<Rightarrow> WorkInfo list list" where
  "sent cs = concat (map sent_batch cs)"

text \<open>The producer's buffer, and the calls a consumer still has to make for its batch.\<close>

fun buffer :: "Producer \<Rightarrow> WorkInfo list" where
  "buffer (Looping workList) = workList"
| "buffer (Sending workList) = workList"
| "buffer (Flushing workList) = workList"
| "buffer Closing = []"
| "buffer Ended = []"

fun pending :: "Consumer \<Rightarrow> Call list" where
  "pending (Busy worker n cs brk) = cs"
| "pending _ = []"

text \<open>A consumer that has not gone through \<^verbatim>\<open>wait.Done()\<close> counts 1 in the WaitGroup.\<close>

fun live :: "Consumer \<Rightarrow> int" where
  "live Exited = 0"
| "live _ = 1"

text \<open>
  The WorkInfos of the batches handed to \<^verbatim>\<open>DoWork\<close>, in the order of the calls, and
  what such a WorkInfo must have passed: the nil check of line 93, the Skipper and
  \<^verbatim>\<open>WillWork\<close> (the Overseer's answer depends on the time of the question).
\<close>

fun dispatched_batch :: "Call \<Rightarrow> WorkInfo list" where
  "dispatched_batch (DoWork_call i b) = b"
| "dispatched_batch _ = []"

definition dispatched :: "Call list \<Rightarrow> WorkInfo list" where
  "dispatched cs = concat (map dispatched_batch cs)"

definition passed :: "Flow \<Rightarrow> WorkInfo \<Rightarrow> bool" where
  "passed f w = (Work w \<noteq> None \<and> passes_Skipper f w \<and> passes_WillWork f w)"

text \<open>
  The WorkInfos that one answer of \<^verbatim>\<open>WorkProvider.Provide\<close> emits for the engine to
  settle: the WorkInfo of an answer with an error (nil or not), and the WorkInfo with
  non-nil Work of an answer without error. \<open>emitted_until\<close> collects them over the first
  \<open>n\<close> calls.
\<close>

definition emitted :: "bool \<times> WorkInfo option \<times> CodeError option \<Rightarrow> WorkInfo option list" where
  "emitted answer =
     (case answer of (hasMore, workInfo, err) \<Rightarrow>
        (case err of
           Some e \<Rightarrow> [workInfo]
         | None \<Rightarrow>
            (case workInfo of
               None \<Rightarrow> []
             | Some w \<Rightarrow> (case Work w of None \<Rightarrow> [] | Some _ \<Rightarrow> [Some w]))))"

definition emitted_until :: "WorkProvider \<Rightarrow> nat \<Rightarrow> WorkInfo option list" where
  "emitted_until wp n = concat (map (\<lambda>k. emitted (WorkProvider_Provide wp k)) [0..<n])"

text \<open>How often the first \<open>n\<close> answers of the provider carry the WorkInfo \<open>w\<close>.\<close>

definition emissions :: "WorkProvider \<Rightarrow> nat \<Rightarrow> WorkInfo \<Rightarrow> nat" where
  "emissions wp n w =
     length (filter (\<lambda>k. fst (snd (WorkProvider_Provide wp k)) = Some w) [0..<n])"

text \<open>How many terminal listener events of a log are about the WorkInfo \<open>w\<close>.\<close>

definition terminal_events :: "Call list \<Rightarrow> WorkInfo \<Rightarrow> nat" where
  "terminal_events cs w = length (filter (\<lambda>x. x = Some w) (terminal_infos cs))"

text \<open>
  The contract of \<^verbatim>\<open>Worker.DoWork\<close> in the specification: one record for each WorkInfo
  of the batch, positionally aligned.
\<close>

definition aligned_worker :: "Worker \<Rightarrow> bool" where
  "aligned_worker worker =
     (\<forall>n workList. map WorkInfo (fst (DoWork worker n workList)) = map Some workList)"

text \<open>Consumer \<open>i\<close> gets an error from \<^verbatim>\<open>WorkerProvider.Provide\<close>.\<close>

definition construction_fails :: "Flow \<Rightarrow> nat \<Rightarrow> bool" where
  "construction_fails f i =
     (case WorkerProvider f of
        None \<Rightarrow> False
      | Some p \<Rightarrow> snd (WorkerProvider_Provide p i) \<noteq> None)"

text \<open>What \<^verbatim>\<open>Flow.Check\<close> establishes when it returns no error.\<close>

definition checked :: "Flow \<Rightarrow> bool" where
  "checked f =
     (1 \<le> WorkerCount (Info f) \<and> 1 \<le> DoWorkInfoListMaxCount f
      \<and> WorkProvider f \<noteq> None \<and> WorkerProvider f \<noteq> None)"

text \<open>\<^verbatim>\<open>Start\<close> gets past lines 59 to 73 and starts its goroutines.\<close>

definition starts :: "Env \<Rightarrow> Flow \<Rightarrow> bool" where
  "starts E f =
     (snd (Flow_Check E f) = None
      \<and> (Force (Info f) \<or> UserCodeVerification E)
      \<and> (case FlowWillStartFunc (EventListener f) of
            Some (Some err) \<Rightarrow> False | _ \<Rightarrow> True))"

section \<open>Invariants of a running flow\<close>

text \<open>
  The properties below hold in every state that a schedule reaches from the state in
  which the goroutines have been started; the proofs are in the second half of the
  theory. \<open>consumer_call\<close> singles out the calls that a consumer makes for a batch.
\<close>

fun consumer_call :: "Call \<Rightarrow> bool" where
  "consumer_call (Acquire n) = True"
| "consumer_call (DoWork_call i b) = True"
| "consumer_call (WorkDone r) = True"
| "consumer_call (OnWorkFail w e) = True"
| "consumer_call (OnWorkSuccess w v) = True"
| "consumer_call (Release n) = True"
| "consumer_call (AddLimitCount n) = True"
| "consumer_call (Sleep n) = True"
| "consumer_call _ = False"

text \<open>A batch has at least one and at most \<^verbatim>\<open>DoWorkInfoListMaxCount\<close> WorkInfos.\<close>

definition batch_ok :: "Flow \<Rightarrow> WorkInfo list \<Rightarrow> bool" where
  "batch_ok f b = (1 \<le> length b \<and> int (length b) \<le> DoWorkInfoListMaxCount f)"

text \<open>The WaitGroup's counter is the number of consumers that have not called Done.\<close>

definition wait_counts :: "state \<Rightarrow> bool" where
  "wait_counts s = (wait s = sum_list (map live (consumers s)))"

text \<open>A consumer whose worker cannot be constructed is created or has returned at line 164.\<close>

definition failures_stay :: "Flow \<Rightarrow> state \<Rightarrow> bool" where
  "failures_stay f s =
     (\<forall>i < length (consumers s). construction_fails f i \<longrightarrow>
        consumers s ! i = Created \<or> consumers s ! i = Failed)"

text \<open>
  \<^verbatim>\<open>Start\<close> has returned only if the counter is zero, and the end hook has run only if
  \<^verbatim>\<open>Start\<close> has returned.
\<close>

definition returned_late :: "state \<Rightarrow> bool" where
  "returned_late s =
     ((caller s = Returned \<longrightarrow> wait s = 0)
      \<and> (FlowWillEnd_call \<in> set (calls s) \<longrightarrow> caller s = Returned))"

text \<open>What a consumer still has to call for its batch are calls of a consumer.\<close>

definition pending_ok :: "state \<Rightarrow> bool" where
  "pending_ok s =
     (\<forall>i < length (consumers s). \<forall>c \<in> set (pending (consumers s ! i)). consumer_call c)"

text \<open>
  The buffer at the loop head is shorter than the maximum; what the producer is about
  to send, what it has sent and what is in the channel are batches within the bounds.
\<close>

definition batching :: "Flow \<Rightarrow> state \<Rightarrow> bool" where
  "batching f s =
     ((case producer s of
         Looping workList \<Rightarrow> int (length workList) < DoWorkInfoListMaxCount f
       | Sending workList \<Rightarrow> batch_ok f workList
       | Flushing workList \<Rightarrow> batch_ok f workList
       | Closing \<Rightarrow> True
       | Ended \<Rightarrow> True)
      \<and> (\<forall>b \<in> set (sent (calls s)). batch_ok f b)
      \<and> (\<forall>b \<in> set (workChan s). batch_ok f b))"

text \<open>
  Whatever is in the buffer, in the channel, about to be handed or already handed to a
  worker has passed the nil check, the Skipper and \<^verbatim>\<open>WillWork\<close>.
\<close>

definition only_passed :: "Flow \<Rightarrow> state \<Rightarrow> bool" where
  "only_passed f s =
     ((\<forall>w \<in> set (buffer (producer s)). passed f w)
      \<and> (\<forall>b \<in> set (workChan s). \<forall>w \<in> set b. passed f w)
      \<and> (\<forall>i < length (consumers s). \<forall>w \<in> set (dispatched (pending (consumers s ! i))). passed f w)
      \<and> (\<forall>w \<in> set (dispatched (calls s)). passed f w))"

text \<open>The channel is closed exactly when the producer has ended.\<close>

definition closing :: "state \<Rightarrow> bool" where
  "closing s = (workChanClosed s \<longleftrightarrow> producer s = Ended)"

text \<open>Only the producer, at the head of its loop, can have panicked.\<close>

definition quiet_panic :: "state \<Rightarrow> bool" where
  "quiet_panic s = (panicked s \<longrightarrow> (\<exists>workList. producer s = Looping workList))"

text \<open>
  With workers that keep the contract \<open>aligned_worker\<close>, no consumer is on its way out
  through line 180.
\<close>

definition workers_ok :: "state \<Rightarrow> bool" where
  "workers_ok s =
     (\<forall>i < length (consumers s).
        case consumers s ! i of
          Idle worker n \<Rightarrow> aligned_worker worker
        | Busy worker n cs brk \<Rightarrow> aligned_worker worker \<and> \<not> brk
        | _ \<Rightarrow> True)"

text \<open>
  A consumer has called Done only after an interrupt, after a work error with
  \<^verbatim>\<open>StopWhenWorkError\<close>, or at the end of the closed and drained channel.
\<close>

definition exits :: "Flow \<Rightarrow> state \<Rightarrow> bool" where
  "exits f s =
     (\<forall>i < length (consumers s). consumers s ! i = Exited \<longrightarrow>
        interrupt s \<or> (workErrorHappened s \<and> StopWhenWorkError (Info f))
        \<or> (workChanClosed s \<and> workChan s = []))"

text \<open>
  The WorkInfos of the terminal events that consumers still have to fire, and the
  accounting of every emitted WorkInfo: it has had its terminal event, or it is in the
  producer's buffer, in the channel, or in a consumer's hands. The accounting stops with
  an interrupt (a consumer drops the batch it has received) and with a panic.
\<close>

definition in_flight :: "Consumer list \<Rightarrow> WorkInfo option multiset" where
  "in_flight cs = sum_list (map (\<lambda>c. mset (terminal_infos (pending c))) cs)"

definition accounted :: "WorkProvider \<Rightarrow> state \<Rightarrow> bool" where
  "accounted wp s =
     (\<not> interrupt s \<and> \<not> panicked s \<longrightarrow>
        mset (terminal_infos (calls s)) + mset (map Some (buffer (producer s)))
          + mset (map Some (concat (workChan s))) + in_flight (consumers s)
        = mset (emitted_until wp (provided s)))"

definition consistent :: "Flow \<Rightarrow> state \<Rightarrow> bool" where
  "consistent f s =
     (wait_counts s \<and> failures_stay f s \<and> pending_ok s \<and> batching f s \<and> closing s
      \<and> quiet_panic s \<and> returned_late s
      \<and> length (consumers s) = nat (WorkerCount (Info f)))"

definition settled :: "Flow \<Rightarrow> WorkProvider \<Rightarrow> state \<Rightarrow> bool" where
  "settled f wp s = (consistent f s \<and> workers_ok s \<and> exits f s \<and> accounted wp s)"

section \<open>Sample collaborators\<close>

text \<open>
  Concrete collaborators, used where a statement is evaluated on an input. The sample
  provider plays a finite script of answers and then reports the end of its source
  with \<^verbatim>\<open>(false, nil, nil)\<close>.
\<close>

definition sample_env :: Env where
  "sample_env =
     \<lparr>ErrorCodeParamMissing = 1, ErrorCodeAlreadyDone = 2,
      CodeError_Error = (\<lambda>e. case e of None \<Rightarrow> [] | Some c \<Rightarrow> Desc c),
      CannotEmptyError = (\<lambda>x y. \<lparr>Code = 3, Desc = x\<rparr>),
      UserCodeVerification = False\<rparr>"

definition item :: "string \<Rightarrow> WorkInfo" where
  "item d = \<lparr>Data = d, Work = Some 0\<rparr>"

definition script :: "(bool \<times> WorkInfo option \<times> CodeError option) list \<Rightarrow> WorkProvider" where
  "script answers =
     \<lparr>WorkProvider_Provide =
        (\<lambda>n. if n < length answers then answers ! n else (False, None, None))\<rparr>"

definition good_record :: "WorkInfo \<Rightarrow> WorkRecord" where
  "good_record w =
     \<lparr>WorkInfo = Some w, Result = Some \<lparr>Value = Data w, IsValid = True\<rparr>, Err = None\<rparr>"

definition good_worker :: Worker where
  "good_worker = \<lparr>DoWork = (\<lambda>n workList. (map good_record workList, None))\<rparr>"

definition broken_worker :: Worker where
  "broken_worker = \<lparr>DoWork = (\<lambda>n workList. ([], Some \<lparr>Code = 5, Desc = ''down''\<rparr>))\<rparr>"

definition sample_listener :: EventListener where
  "sample_listener =
     \<lparr>FlowWillStartFunc = None, FlowWillEndFunc = Some None,
      WillWork = (\<lambda>w. (True, None))\<rparr>"

definition sample_flow :: Flow where
  "sample_flow =
     \<lparr>Info = \<lparr>Force = True, WorkerCount = 1, StopWhenWorkError = False\<rparr>,
      WorkProvider = Some (script [(True, Some (item ''a''), None)]),
      WorkerProvider = Some \<lparr>WorkerProvider_Provide = (\<lambda>i. (good_worker, None))\<rparr>,
      DoWorkInfoListMaxCount = 1,
      Limit = None,
      EventListener = sample_listener,
      Overseer = None, Skipper = None, Redo = None\<rparr>"

definition unchecked_flow :: Flow where
  "unchecked_flow =
     sample_flow\<lparr>Info := \<lparr>Force = True, WorkerCount = 0, StopWhenWorkError = False\<rparr>,
                 DoWorkInfoListMaxCount := 0\<rparr>"

definition erring_flow :: Flow where
  "erring_flow =
     sample_flow\<lparr>WorkProvider :=
       Some (script [(False, Some (item ''a''), Some \<lparr>Code = 1, Desc = ''no key''\<rparr>),
                     (True, None, Some \<lparr>Code = 7, Desc = ''io''\<rparr>)])\<rparr>"


definition gated_skipper :: Skipper where
  "gated_skipper =
     \<lparr>ShouldSkip = (\<lambda>w. (Data w = ''s'', Some \<lparr>Code = 8, Desc = ''skipped''\<rparr>))\<rparr>"

definition gated_script :: WorkProvider where
  "gated_script =
     script [(True, Some (item ''s''), None), (True, Some (item ''a''), None),
             (True, Some (item ''w''), None)]"

definition gated_flow :: Flow where
  "gated_flow =
     sample_flow\<lparr>
       WorkProvider := Some gated_script,
       Skipper := Some gated_skipper,
       Overseer :=
         Some \<lparr>GetWorkRecordIfHasDone = (\<lambda>past w. (Data w = ''d'', Some (good_record w)))\<rparr>,
       EventListener :=
         sample_listener\<lparr>WillWork :=
           (\<lambda>w. (Data w \<noteq> ''w'', Some \<lparr>Code = 9, Desc = ''refused''\<rparr>))\<rparr>\<rparr>"

definition sample_limit :: AutoLimit where
  "sample_limit =
     \<lparr>IsLimitError = (\<lambda>code e. case e of None \<Rightarrow> False | Some c \<Rightarrow> Code c = 573)\<rparr>"

definition bare_record :: "WorkInfo \<Rightarrow> WorkRecord" where
  "bare_record w = \<lparr>WorkInfo = Some w, Result = None, Err = None\<rparr>"

definition throttled_worker :: Worker where
  "throttled_worker =
     \<lparr>DoWork = (\<lambda>n workList. (map bare_record workList, Some \<lparr>Code = 573, Desc = ''slow down''\<rparr>))\<rparr>"

definition limited_flow :: Flow where
  "limited_flow =
     sample_flow\<lparr>Limit := Some sample_limit,
                 Overseer := Some \<lparr>GetWorkRecordIfHasDone = (\<lambda>past w. (False, None))\<rparr>\<rparr>"

text \<open>
  Flows for the runs below: a worker that fails every batch, a worker provider that
  fails for consumer 1, and a provider of three WorkInfos with batches of at most two.
  \<open>sample_schedule\<close> lets the producer run to its end, then consumer 0, then consumer
  1, then the caller; \<open>batch_schedule\<close> lets consumer 0 take the first batch out of the
  channel (of capacity 1) so that the producer can send the second.
\<close>

definition sample_schedule :: "Goroutine list" where
  "sample_schedule =
     [ProducerG, ProducerG, ProducerG, ProducerG,
      ConsumerG 0, ConsumerG 0, ConsumerG 0, ConsumerG 0, ConsumerG 0, ConsumerG 0,
      ConsumerG 1, CallerG]"

definition broken_flow :: Flow where
  "broken_flow =
     sample_flow\<lparr>WorkerProvider :=
       Some \<lparr>WorkerProvider_Provide = (\<lambda>i. (broken_worker, None))\<rparr>\<rparr>"

definition doomed_flow :: Flow where
  "doomed_flow =
     sample_flow\<lparr>
       Info := \<lparr>Force = True, WorkerCount = 2, StopWhenWorkError = False\<rparr>,
       WorkerProvider :=
         Some \<lparr>WorkerProvider_Provide =
           (\<lambda>i. (good_worker, if i = 1 then Some \<lparr>Code = 4, Desc = ''no worker''\<rparr> else None))\<rparr>\<rparr>"

definition three_script :: WorkProvider where
  "three_script =
     script [(True, Some (item ''a''), None), (True, Some (item ''b''), None),
             (True, Some (item ''c''), None)]"

definition three_flow :: Flow where
  "three_flow =
     sample_flow\<lparr>WorkProvider := Some three_script, DoWorkInfoListMaxCount := 2\<rparr>"

definition batch_schedule :: "Goroutine list" where
  "batch_schedule =
     [ProducerG, ProducerG, ProducerG, ProducerG, ProducerG,
      ConsumerG 0, ConsumerG 0, ProducerG, ProducerG]"

definition gated_schedule :: "Goroutine list" where
  "gated_schedule =
     [ProducerG, ProducerG, ProducerG, ProducerG, ProducerG, ProducerG,
      ConsumerG 0, ConsumerG 0, ConsumerG 0, ConsumerG 0, ConsumerG 0, ConsumerG 0, CallerG]"

text \<open>A flow with a limiter whose worker fails every batch.\<close>

definition leaking_flow :: Flow where
  "leaking_flow =
     limited_flow\<lparr>WorkerProvider :=
       Some \<lparr>WorkerProvider_Provide = (\<lambda>i. (broken_worker, None))\<rparr>\<rparr>"

section \<open>Info.Check and Flow.Check: clamping\<close>

lemma Info_Check_idem: "fst (Info_Check (fst (Info_Check i))) = fst (Info_Check i)"
  by (simp add: Info_Check_def)

lemma Info_Check_WorkerCount: "1 \<le> WorkerCount (fst (Info_Check i))"
  by (simp add: Info_Check_def)

lemma Flow_Check_ok:
  assumes "Flow_Check E f = (f1, None)"
  shows "1 \<le> WorkerCount (Info f1)" and "1 \<le> DoWorkInfoListMaxCount f1"
    and "WorkProvider f1 \<noteq> None" and "WorkerProvider f1 \<noteq> None"
    and "Limit f1 = Limit f" and "EventListener f1 = EventListener f"
    and "Overseer f1 = Overseer f" and "Skipper f1 = Skipper f" and "Redo f1 = Redo f"
    and "WorkProvider f1 = WorkProvider f" and "WorkerProvider f1 = WorkerProvider f"
    and "StopWhenWorkError (Info f1) = StopWhenWorkError (Info f)"
    and "Force (Info f1) = Force (Info f)"
  using assms
  by (auto simp: Flow_Check_def Info_Check_def Let_def split: option.splits if_splits)

text \<open>
  Claim C4, as stated, at a concrete input: a Flow whose \<^verbatim>\<open>WorkerCount\<close> and
  \<^verbatim>\<open>DoWorkInfoListMaxCount\<close> are both 0. After \<^verbatim>\<open>f.Info.Check()\<close> the worker count is 1,
  but \<^verbatim>\<open>DoWorkInfoListMaxCount\<close>, a field of \<^verbatim>\<open>Flow\<close> and not of \<^verbatim>\<open>Info\<close>, is still 0.
\<close>

theorem C4_Info_Check_counterexample:
  "\<not> (1 \<le> WorkerCount (fst (Info_Check (Info unchecked_flow)))
      \<and> 1 \<le> DoWorkInfoListMaxCount
              (unchecked_flow\<lparr>Info := fst (Info_Check (Info unchecked_flow))\<rparr>))"
  by (simp add: unchecked_flow_def sample_flow_def Info_Check_def)

text \<open>
  Claim C4, amended: \<^verbatim>\<open>Info.Check()\<close> is idempotent, returns no error, leaves a worker
  count that is already at least 1 as it is, and after it \<^verbatim>\<open>WorkerCount\<close> is at least 1,
  for every starting configuration. \<^verbatim>\<open>DoWorkInfoListMaxCount\<close> is a field of \<^verbatim>\<open>Flow\<close>; it
  is clamped by \<^verbatim>\<open>Flow.Check()\<close>: whenever \<^verbatim>\<open>Flow.Check()\<close> returns no error, both
  \<^verbatim>\<open>WorkerCount\<close> and \<^verbatim>\<open>DoWorkInfoListMaxCount\<close> are at least 1.
\<close>

theorem C4_Info_Check_amended:
  "fst (Info_Check (fst (Info_Check i))) = fst (Info_Check i)
   \<and> snd (Info_Check i) = None
   \<and> 1 \<le> WorkerCount (fst (Info_Check i))
   \<and> (1 \<le> WorkerCount i \<longrightarrow> fst (Info_Check i) = i)
   \<and> (snd (Flow_Check E f) = None \<longrightarrow>
        1 \<le> WorkerCount (Info (fst (Flow_Check E f)))
        \<and> 1 \<le> DoWorkInfoListMaxCount (fst (Flow_Check E f)))"
proof -
  have "snd (Flow_Check E f) = None \<Longrightarrow>
        1 \<le> WorkerCount (Info (fst (Flow_Check E f)))
        \<and> 1 \<le> DoWorkInfoListMaxCount (fst (Flow_Check E f))"
    using Flow_Check_ok(1,2)[of E f "fst (Flow_Check E f)"]
    by (metis prod.collapse)
  moreover have "1 \<le> WorkerCount i \<Longrightarrow> fst (Info_Check i) = i"
    by (simp add: Info_Check_def)
  moreover have "snd (Info_Check i) = None"
    by (simp add: Info_Check_def)
  ultimately show ?thesis
    using Info_Check_idem[of i] Info_Check_WorkerCount[of i] by blast
qed

theorem C4_Info_Check_amended_witness:
  "snd (Flow_Check sample_env unchecked_flow) = None
   \<and> WorkerCount (Info (fst (Flow_Check sample_env unchecked_flow))) = 1
   \<and> DoWorkInfoListMaxCount (fst (Flow_Check sample_env unchecked_flow)) = 1
   \<and> 1 \<le> WorkerCount (Info sample_flow)
   \<and> fst (Info_Check (Info sample_flow)) = Info sample_flow
   \<and> 1 \<le> WorkerCount (fst (Info_Check (Info unchecked_flow)))"
  using C4_Info_Check_amended[of "Info sample_flow" sample_env unchecked_flow]
        C4_Info_Check_amended[of "Info unchecked_flow" sample_env unchecked_flow]
  by (simp add: unchecked_flow_def sample_flow_def Flow_Check_def Info_Check_def)

section \<open>Admission\<close>

lemma check_Skipper_cases:
  "check_Skipper f w =
     (case Skipper f of None \<Rightarrow> ([], Admitted)
      | Some sk \<Rightarrow> if fst (ShouldSkip sk w)
          then ([ShouldSkip_call w, OnWorkSkip (Some w) None (snd (ShouldSkip sk w))], Skipped)
          else ([ShouldSkip_call w], Admitted))"
  by (simp add: check_Skipper_def split: option.splits prod.splits)

lemma check_WillWork_cases:
  "check_WillWork f w =
     (if passes_WillWork f w then ([WillWork_call w], Admitted)
      else ([WillWork_call w, OnWorkSkip (Some w) None (snd (WillWork (EventListener f) w))], Skipped))"
  by (simp add: check_WillWork_def passes_WillWork_def split: prod.splits)

lemma check_Overseer_passes:
  "snd (check_Overseer E f past w) = Admitted \<longleftrightarrow> passes_Overseer f past w"
  by (simp add: check_Overseer_def passes_Overseer_def split: option.splits prod.splits)

lemma check_Overseer_stages:
  "sorted_wrt (<) (map stage (fst (check_Overseer E f past w)))"
  "\<forall>c \<in> set (fst (check_Overseer E f past w)). 2 \<le> stage c"
  "snd (check_Overseer E f past w) = Admitted \<Longrightarrow> \<forall>c \<in> set (fst (check_Overseer E f past w)). stage c < 4 \<and> stage c < 5"
  "length (filter is_OnWorkSkip (fst (check_Overseer E f past w))) =
     (if snd (check_Overseer E f past w) = Skipped then 1 else 0)"
  "WillWork_call w \<notin> set (fst (check_Overseer E f past w))"
  "ShouldSkip_call w \<notin> set (fst (check_Overseer E f past w))"
  "GetWorkRecordIfHasDone_call w \<in> set (fst (check_Overseer E f past w)) \<longleftrightarrow> Overseer f \<noteq> None"
  by (auto simp add: check_Overseer_def split: option.splits prod.splits)

lemma admit_cases:
  "admit E f past w =
     (if \<not> passes_Skipper f w then check_Skipper f w
      else if \<not> passes_Overseer f past w
      then (fst (check_Skipper f w) @ fst (check_Overseer E f past w), snd (check_Overseer E f past w))
      else (fst (check_Skipper f w) @ fst (check_Overseer E f past w) @ fst (check_WillWork f w),
            snd (check_WillWork f w)))"
  unfolding admit_def
  using check_Overseer_passes[of E f past w]
  by (cases "check_Overseer E f past w"; cases "snd (check_Overseer E f past w)")
     (auto simp: check_Skipper_cases passes_Skipper_def split: option.splits prod.splits Admission.splits)







section \<open>Errors of the work provider\<close>

lemma producer_iteration_error:
  assumes "WorkProvider_Provide wp n = (hasMore, workInfo, Some e)"
  shows "producer_iteration E f wp past n workList =
     ([Provide_call,
       if Code e = ErrorCodeParamMissing E then OnWorkSkip workInfo None (Some e)
       else OnWorkFail workInfo (Some e)], Some (Looping workList))"
  using assms by (simp add: producer_iteration_def)

lemma producer_iteration_Provide_first:
  "\<exists>cs. fst (producer_iteration E f wp past n workList) = Provide_call # cs"
  by (cases "WorkProvider_Provide wp n")
     (auto simp: producer_iteration_def Let_def
        split: option.splits prod.splits Admission.splits)

text \<open>
  Claim C7: whenever \<^verbatim>\<open>WorkProvider.Provide\<close> returns a non-nil error (whatever
  \<^verbatim>\<open>hasMore\<close> and the WorkInfo are), the producer's iteration calls OnWorkSkip(workInfo,
  nil, err) if the error's code is ErrorCodeParamMissing and OnWorkFail(workInfo, err)
  otherwise, makes no other call, and is back at the head of its loop with the same
  buffer and the channel not closed: its next iteration starts with the next call of
  \<^verbatim>\<open>Provide\<close>.
\<close>

theorem C7_provider_item_error:
  assumes "WorkProvider_Provide wp n = (hasMore, workInfo, Some e)"
    and "WorkProvider f = Some wp" and "producer s = Looping workList"
    and "provided s = n" and "\<not> panicked s"
  shows "producer_iteration E f wp (recorded (calls s)) n workList =
           ([Provide_call,
             if Code e = ErrorCodeParamMissing E then OnWorkSkip workInfo None (Some e)
             else OnWorkFail workInfo (Some e)], Some (Looping workList))
       \<and> step E f ProducerG s =
           s\<lparr>calls := calls s @
                [Provide_call,
                 if Code e = ErrorCodeParamMissing E then OnWorkSkip workInfo None (Some e)
                 else OnWorkFail workInfo (Some e)],
             provided := Suc n\<rparr>
       \<and> producer (step E f ProducerG s) = Looping workList
       \<and> workChanClosed (step E f ProducerG s) = workChanClosed s
       \<and> (\<exists>cs. fst (producer_iteration E f wp
                       (recorded (calls (step E f ProducerG s)))
                       (provided (step E f ProducerG s)) workList) = Provide_call # cs)"
  using assms producer_iteration_Provide_first[of E f wp _ "Suc n" workList]
  by (simp add: step_def producer_step_def producer_iteration_error)


lemma erring_Provide0:
  "WorkProvider_Provide
     (script [(False, Some (item ''a''), Some \<lparr>Code = 1, Desc = ''no key''\<rparr>),
              (True, None, Some \<lparr>Code = 7, Desc = ''io''\<rparr>)]) 0
   = (False, Some (item ''a''), Some \<lparr>Code = 1, Desc = ''no key''\<rparr>)"
  by (simp add: script_def)

theorem C7_provider_item_error_witness:
  "WorkProvider_Provide
     (script [(False, Some (item ''a''), Some \<lparr>Code = 1, Desc = ''no key''\<rparr>),
              (True, None, Some \<lparr>Code = 7, Desc = ''io''\<rparr>)]) 0
   = (False, Some (item ''a''), Some \<lparr>Code = 1, Desc = ''no key''\<rparr>)
   \<and> producer (started erring_flow) = Looping []
   \<and> \<not> panicked (started erring_flow)
   \<and> calls (step sample_env erring_flow ProducerG (started erring_flow))
       = [Provide_call, OnWorkSkip (Some (item ''a'')) None (Some \<lparr>Code = 1, Desc = ''no key''\<rparr>)]
   \<and> producer (step sample_env erring_flow ProducerG (started erring_flow)) = Looping []
   \<and> provided (step sample_env erring_flow ProducerG (started erring_flow)) = 1
   \<and> \<not> workChanClosed (step sample_env erring_flow ProducerG (started erring_flow))"
  using C7_provider_item_error[OF erring_Provide0, of erring_flow "started erring_flow" "[]" sample_env]
  by (simp add: erring_flow_def sample_flow_def started_def sample_env_def sample_listener_def script_def)


section \<open>The consumer: records of a batch\<close>


lemma handle_records_eq:
  "handle_records f workErr records h =
     (concat (map (\<lambda>r. resultHandler f (fallback workErr r)) records),
      h + int (length (filter (\<lambda>r. isHitLimit f (fallback workErr r)) records)))"
  by (induction records arbitrary: h) (auto simp: Let_def)

lemma resultHandler_no_limit_response:
  "filter is_limit_response (resultHandler f r) = []"
  by (auto simp: resultHandler_def split: option.splits)

lemma handled_no_limit_response:
  "filter is_limit_response (concat (map (\<lambda>r. resultHandler f (fallback workErr r)) records)) = []"
  by (induction records) (auto simp: resultHandler_no_limit_response)





text \<open>
  The throttle response for a batch that reaches the record loop, with a limiter
  supplied: the consumer calls Acquire(len(batch)), DoWork, dispatches the records, then
  calls Release(len(batch)) once; if K > 0 records carry an error (the fallback error
  included) that IsLimitError classifies as a limit error, it then calls
  AddLimitCount(-K) once and Sleep(1500 ms) once, as the last calls for this batch; if
  K = 0 it calls neither.
\<close>

lemma throttle_response:
  assumes "Limit f = Some l"
    and "DoWork worker n workList = (records, workErr)"
    and "\<not> (records = [] \<and> workErr \<noteq> None)"
  shows "consumer_iteration f worker i n workList
           = (Acquire (int (length workList)) # DoWork_call i workList
              # concat (map (\<lambda>r. resultHandler f (fallback workErr r)) records)
              @ Release (int (length workList))
              # (if limit_errors l workErr records > 0
                 then [AddLimitCount (- limit_errors l workErr records), Sleep 1500] else []),
              False)
       \<and> filter is_limit_response (fst (consumer_iteration f worker i n workList))
           = Release (int (length workList))
             # (if limit_errors l workErr records > 0
                then [AddLimitCount (- limit_errors l workErr records), Sleep 1500] else [])
       \<and> (limit_errors l workErr records > 0 \<longrightarrow>
            last (fst (consumer_iteration f worker i n workList)) = Sleep 1500)"
proof -
  have k: "int (length (filter (\<lambda>r. isHitLimit f (fallback workErr r)) records))
             = limit_errors l workErr records"
    using assms(1) by (simp add: isHitLimit_def limit_errors_def)
  have it: "consumer_iteration f worker i n workList
           = (Acquire (int (length workList)) # DoWork_call i workList
              # concat (map (\<lambda>r. resultHandler f (fallback workErr r)) records)
              @ Release (int (length workList))
              # (if limit_errors l workErr records > 0
                 then [AddLimitCount (- limit_errors l workErr records), Sleep 1500] else []),
              False)"
    using assms k by (auto simp: consumer_iteration_def handle_records_eq after_records_def)
  show ?thesis
    unfolding it by (simp add: handled_no_limit_response)
qed

lemma throttle_response_example:
  "Limit limited_flow = Some sample_limit
   \<and> DoWork throttled_worker 0 [item ''a'', item ''b'']
       = ([bare_record (item ''a''), bare_record (item ''b'')],
          Some \<lparr>Code = 573, Desc = ''slow down''\<rparr>)
   \<and> limit_errors sample_limit (Some \<lparr>Code = 573, Desc = ''slow down''\<rparr>)
        [bare_record (item ''a''), bare_record (item ''b'')] = 2
   \<and> filter is_limit_response
        (fst (consumer_iteration limited_flow throttled_worker 0 0 [item ''a'', item ''b'']))
       = [Release 2, AddLimitCount (- 2), Sleep 1500]
   \<and> last (fst (consumer_iteration limited_flow throttled_worker 0 0 [item ''a'', item ''b'']))
       = Sleep 1500"
  using throttle_response[of limited_flow sample_limit throttled_worker 0
          "[item ''a'', item ''b'']" "[bare_record (item ''a''), bare_record (item ''b'')]"
          "Some \<lparr>Code = 573, Desc = ''slow down''\<rparr>" 0]
  by (simp add: limited_flow_def sample_flow_def throttled_worker_def limit_errors_def
        sample_limit_def fallback_def bare_record_def resultHandler_def)

text \<open>
  Claim C6 says that Release(len(batch)) is called unconditionally after the batch
  returns. The code misses this on one path: with a limiter supplied, a batch for which
  \<^verbatim>\<open>DoWork\<close> returns no record and a batch error has its permits acquired at line 173,
  then the consumer leaves its loop at line 180 and goes through \<^verbatim>\<open>wait.Done()\<close>
  without a call of Release (or of any other method of the limiter); the permits are
  never returned. The path that dispatches records releases them at line 222.
\<close>

theorem C6_permits_not_released:
  assumes "Limit f = Some l"
    and "DoWork worker n workList = ([], Some e)"
  shows "consumer_iteration f worker i n workList
           = ([Acquire (int (length workList)), DoWork_call i workList], True)
       \<and> filter is_limit_response (fst (consumer_iteration f worker i n workList)) = []
       \<and> (i < length (consumers s) \<and> consumers s ! i = Busy worker (Suc n) [] True
            \<and> \<not> panicked s \<longrightarrow>
            step E f (ConsumerG i) s = wait_Done i s
            \<and> calls (step E f (ConsumerG i) s) = calls s)"
  using assms
  by (simp add: consumer_iteration_def step_def consumer_step_def wait_Done_def)

lemma leaking_run:
  "caller (Start sample_env leaking_flow sample_schedule) = Returned
   \<and> calls (Start sample_env leaking_flow sample_schedule)
       = [Provide_call, GetWorkRecordIfHasDone_call (item ''a''), WillWork_call (item ''a''),
          Send [item ''a''], Provide_call, Close,
          WorkerProvider_call 0, Acquire 1, DoWork_call 0 [item ''a''], FlowWillEnd_call]
   \<and> filter is_limit_response (calls (Start sample_env leaking_flow sample_schedule)) = []"
  by code_simp

theorem C6_permits_not_released_witness:
  "Limit limited_flow = Some sample_limit
   \<and> DoWork broken_worker 0 [item ''a''] = ([], Some \<lparr>Code = 5, Desc = ''down''\<rparr>)
   \<and> consumer_iteration limited_flow broken_worker 0 0 [item ''a'']
       = ([Acquire 1, DoWork_call 0 [item ''a'']], True)
   \<and> Release 1 \<notin> set (fst (consumer_iteration limited_flow broken_worker 0 0 [item ''a'']))
   \<and> caller (Start sample_env leaking_flow sample_schedule) = Returned
   \<and> calls (Start sample_env leaking_flow sample_schedule)
       = [Provide_call, GetWorkRecordIfHasDone_call (item ''a''), WillWork_call (item ''a''),
          Send [item ''a''], Provide_call, Close,
          WorkerProvider_call 0, Acquire 1, DoWork_call 0 [item ''a''], FlowWillEnd_call]
   \<and> filter is_limit_response (calls (Start sample_env leaking_flow sample_schedule)) = []"
proof -
  have h: "Limit limited_flow = Some sample_limit"
    "DoWork broken_worker 0 [item ''a''] = ([], Some \<lparr>Code = 5, Desc = ''down''\<rparr>)"
    by (simp_all add: limited_flow_def broken_worker_def)
  show ?thesis
    using h C6_permits_not_released[OF h, of 0 "started limited_flow" sample_env] leaking_run
    by simp
qed

section \<open>Steps of the goroutines\<close>

text \<open>
  The steps that the producer and a consumer can take, as case rules: every proof of
  an invariant goes through these cases.
\<close>

lemma wait_Done_simps [simp]:
  "calls (wait_Done i s) = calls s"
  "provided (wait_Done i s) = provided s"
  "producer (wait_Done i s) = producer s"
  "workChan (wait_Done i s) = workChan s"
  "workChanClosed (wait_Done i s) = workChanClosed s"
  "consumers (wait_Done i s) = (consumers s)[i := Exited]"
  "wait (wait_Done i s) = wait s - 1"
  "workErrorHappened (wait_Done i s) = workErrorHappened s"
  "interrupt (wait_Done i s) = interrupt s"
  "caller (wait_Done i s) = caller s"
  "panicked (wait_Done i s) = panicked s"
  by (simp_all add: wait_Done_def)

lemma producer_step_cases:
  obtains (idle) "producer_step E f s = s"
  | (no_provider) "WorkProvider f = None" "producer_step E f s = s\<lparr>panicked := True\<rparr>"
  | (panic) workList wp cs where "producer s = Looping workList" "WorkProvider f = Some wp"
      "producer_iteration E f wp (recorded (calls s)) (provided s) workList = (cs, None)"
      "producer_step E f s
         = s\<lparr>calls := calls s @ cs, provided := Suc (provided s), panicked := True\<rparr>"
  | (iterate) workList wp cs p where "producer s = Looping workList" "WorkProvider f = Some wp"
      "producer_iteration E f wp (recorded (calls s)) (provided s) workList = (cs, Some p)"
      "producer_step E f s
         = s\<lparr>calls := calls s @ cs, provided := Suc (provided s), producer := p\<rparr>"
  | (send) workList where "producer s = Sending workList"
      "int (length (workChan s)) < WorkerCount (Info f)"
      "producer_step E f s
         = s\<lparr>calls := calls s @ [Send workList], workChan := workChan s @ [workList],
             producer := Looping []\<rparr>"
  | (flush) workList where "producer s = Flushing workList"
      "int (length (workChan s)) < WorkerCount (Info f)"
      "producer_step E f s
         = s\<lparr>calls := calls s @ [Send workList], workChan := workChan s @ [workList],
             producer := Closing\<rparr>"
  | (close) "producer s = Closing"
      "producer_step E f s
         = s\<lparr>calls := calls s @ [Close], workChanClosed := True, producer := Ended\<rparr>"
proof (cases "producer s")
  case (Looping workList)
  show ?thesis
  proof (cases "WorkProvider f")
    case None
    with Looping show ?thesis using no_provider by (simp add: producer_step_def)
  next
    case (Some wp)
    obtain cs r where it:
      "producer_iteration E f wp (recorded (calls s)) (provided s) workList = (cs, r)"
      by (cases "producer_iteration E f wp (recorded (calls s)) (provided s) workList")
    show ?thesis
    proof (cases r)
      case None
      with Looping Some it show ?thesis using panic by (simp add: producer_step_def)
    next
      case (Some p)
      with Looping \<open>WorkProvider f = Some wp\<close> it show ?thesis
        using iterate by (simp add: producer_step_def)
    qed
  qed
next
  case (Sending workList)
  then show ?thesis using send idle by (cases "int (length (workChan s)) < WorkerCount (Info f)")
      (simp_all add: producer_step_def)
next
  case (Flushing workList)
  then show ?thesis using flush idle by (cases "int (length (workChan s)) < WorkerCount (Info f)")
      (simp_all add: producer_step_def)
next
  case Closing
  then show ?thesis using close by (simp add: producer_step_def)
next
  case Ended
  then show ?thesis using idle by (simp add: producer_step_def)
qed

lemma consumer_step_cases:
  obtains (idle) "consumer_step f i s = s"
  | (no_provider) "WorkerProvider f = None" "consumer_step f i s = s\<lparr>panicked := True\<rparr>"
  | (create_fail) p where "i < length (consumers s)" "consumers s ! i = Created"
      "WorkerProvider f = Some p" "snd (WorkerProvider_Provide p i) \<noteq> None"
      "consumer_step f i s
         = s\<lparr>calls := calls s @ [WorkerProvider_call i],
             consumers := (consumers s)[i := Failed]\<rparr>"
  | (create) p where "i < length (consumers s)" "consumers s ! i = Created"
      "WorkerProvider f = Some p" "snd (WorkerProvider_Provide p i) = None"
      "consumer_step f i s
         = s\<lparr>calls := calls s @ [WorkerProvider_call i],
             consumers := (consumers s)[i := Idle (fst (WorkerProvider_Provide p i)) 0]\<rparr>"
  | (drained) worker n where "i < length (consumers s)" "consumers s ! i = Idle worker n"
      "workChan s = []" "workChanClosed s" "consumer_step f i s = wait_Done i s"
  | (interrupted) worker n workList rest where "i < length (consumers s)"
      "consumers s ! i = Idle worker n" "workChan s = workList # rest" "interrupt s"
      "consumer_step f i s = wait_Done i (s\<lparr>workChan := rest\<rparr>)"
  | (receive) worker n workList rest cs brk where "i < length (consumers s)"
      "consumers s ! i = Idle worker n" "workChan s = workList # rest" "\<not> interrupt s"
      "consumer_iteration f worker i n workList = (cs, brk)"
      "consumer_step f i s
         = s\<lparr>workChan := rest,
             consumers := (consumers s)[i := Busy worker (Suc n) cs brk]\<rparr>"
  | (call) worker n c cs brk where "i < length (consumers s)"
      "consumers s ! i = Busy worker n (c # cs) brk"
      "consumer_step f i s
         = s\<lparr>calls := calls s @ [c],
             workErrorHappened := (workErrorHappened s \<or> is_OnWorkFail c),
             consumers := (consumers s)[i := Busy worker n cs brk]\<rparr>"
  | (leave) worker n brk where "i < length (consumers s)"
      "consumers s ! i = Busy worker n [] brk"
      "brk \<or> (workErrorHappened s \<and> StopWhenWorkError (Info f))"
      "consumer_step f i s = wait_Done i s"
  | (continue) worker n where "i < length (consumers s)"
      "consumers s ! i = Busy worker n [] False"
      "\<not> (workErrorHappened s \<and> StopWhenWorkError (Info f))"
      "consumer_step f i s = s\<lparr>consumers := (consumers s)[i := Idle worker n]\<rparr>"
proof (cases "i < length (consumers s)")
  case False
  then show ?thesis using idle by (simp add: consumer_step_def)
next
  case len: True
  show ?thesis
  proof (cases "consumers s ! i")
    case Created
    show ?thesis
    proof (cases "WorkerProvider f")
      case None
      with len Created show ?thesis using no_provider by (simp add: consumer_step_def)
    next
      case (Some p)
      with len Created show ?thesis using create_fail[of p] create[of p]
        by (cases "WorkerProvider_Provide p i"; cases "snd (WorkerProvider_Provide p i)")
           (simp_all add: consumer_step_def)
    qed
  next
    case (Idle worker n)
    show ?thesis
    proof (cases "workChan s")
      case Nil
      with len Idle show ?thesis using drained[of worker n] idle
        by (cases "workChanClosed s") (simp_all add: consumer_step_def)
    next
      case (Cons workList rest)
      show ?thesis
      proof (cases "interrupt s")
        case True
        with len Idle Cons show ?thesis using interrupted[of worker n workList rest]
          by (simp add: consumer_step_def)
      next
        case False
        with len Idle Cons show ?thesis
          using receive[of worker n workList rest "fst (consumer_iteration f worker i n workList)"
              "snd (consumer_iteration f worker i n workList)"]
          by (simp add: consumer_step_def split: prod.splits)
      qed
    qed
  next
    case (Busy worker n cs brk)
    show ?thesis
    proof (cases cs)
      case Nil
      with len Busy show ?thesis using leave[of worker n brk] continue[of worker n]
        by (cases "brk \<or> (workErrorHappened s \<and> StopWhenWorkError (Info f))")
           (auto simp add: consumer_step_def)
    next
      case (Cons c cs')
      with len Busy show ?thesis using call[of worker n c cs' brk]
        by (simp add: consumer_step_def)
    qed
  next
    case Exited
    with len show ?thesis using idle by (simp add: consumer_step_def)
  next
    case Failed
    with len show ?thesis using idle by (simp add: consumer_step_def)
  qed
qed

lemma step_cases:
  assumes "P s"
    and "\<not> panicked s \<Longrightarrow> P (producer_step E f s)"
    and "\<And>i. \<not> panicked s \<Longrightarrow> P (consumer_step f i s)"
    and "\<not> panicked s \<Longrightarrow> P (caller_step f s)"
    and "\<not> panicked s \<Longrightarrow> P (s\<lparr>interrupt := True\<rparr>)"
  shows "P (step E f g s)"
  using assms by (cases g) (simp_all add: step_def)

lemma run_invariant:
  assumes "P s" and "\<And>s g. P s \<Longrightarrow> P (step E f g s)"
  shows "P (run E f sched s)"
  using assms(1) unfolding run_def
  by (induction sched arbitrary: s) (simp_all add: assms(2))

section \<open>Invariants: the WaitGroup\<close>

lemma sum_live_update:
  "i < length xs \<Longrightarrow>
     sum_list (map live (xs[i := y])) = sum_list (map live xs) + live y - live (xs ! i)"
proof (induction xs arbitrary: i)
  case Nil
  then show ?case by simp
next
  case (Cons x xs)
  then show ?case by (cases i) simp_all
qed

lemma live_nonneg: "0 \<le> live c"
  by (cases c) simp_all

lemma sum_live_nonneg: "0 \<le> sum_list (map live xs)"
  by (induction xs) (simp_all add: live_nonneg)

lemma sum_live_zero:
  "sum_list (map live xs) = 0 \<Longrightarrow> c \<in> set xs \<Longrightarrow> c = Exited"
proof (induction xs)
  case Nil
  then show ?case by simp
next
  case (Cons x xs)
  have "live x = 0 \<and> sum_list (map live xs) = 0"
    using Cons.prems(1) live_nonneg[of x] sum_live_nonneg[of xs] by simp
  then show ?case using Cons by (cases x) auto
qed

lemma sum_live_pos:
  "i < length xs \<Longrightarrow> xs ! i \<noteq> Exited \<Longrightarrow> 1 \<le> sum_list (map live xs)"
  using sum_live_zero[of xs "xs ! i"] sum_live_nonneg[of xs] by fastforce

lemma wait_counts_step:
  assumes "wait_counts s"
  shows "wait_counts (step E f g s)"
proof (rule step_cases)
  show "wait_counts s" by fact
next
  show "wait_counts (producer_step E f s)"
    by (cases rule: producer_step_cases[of E f s]) (use assms in \<open>simp_all add: wait_counts_def\<close>)
next
  fix i
  show "wait_counts (consumer_step f i s)"
    by (cases rule: consumer_step_cases[of f i s])
       (use assms in \<open>simp_all add: wait_counts_def sum_live_update\<close>)
next
  show "wait_counts (caller_step f s)"
    using assms by (simp add: wait_counts_def caller_step_def split: option.splits)
next
  show "wait_counts (s\<lparr>interrupt := True\<rparr>)"
    using assms by (simp add: wait_counts_def)
qed

lemma wait_counts_started: "1 \<le> WorkerCount (Info f) \<Longrightarrow> wait_counts (started f)"
proof -
  have "sum_list (map live (replicate n Created)) = int n" for n
    by (induction n) simp_all
  then show "1 \<le> WorkerCount (Info f) \<Longrightarrow> wait_counts (started f)"
    by (simp add: wait_counts_def started_def)
qed

lemma failures_stay_step:
  assumes "failures_stay f s"
  shows "failures_stay f (step E f g s)"
proof (rule step_cases)
  show "failures_stay f s" by fact
next
  show "failures_stay f (producer_step E f s)"
    by (cases rule: producer_step_cases[of E f s]) (use assms in \<open>simp_all add: failures_stay_def\<close>)
next
  fix i
  show "failures_stay f (consumer_step f i s)"
    by (cases rule: consumer_step_cases[of f i s])
       (use assms in \<open>auto simp add: failures_stay_def nth_list_update construction_fails_def\<close>)
next
  show "failures_stay f (caller_step f s)"
    using assms by (simp add: failures_stay_def caller_step_def split: option.splits)
next
  show "failures_stay f (s\<lparr>interrupt := True\<rparr>)"
    using assms by (simp add: failures_stay_def)
qed

lemma failures_stay_started: "failures_stay f (started f)"
  by (simp add: failures_stay_def started_def)

section \<open>Invariants: calls and batches\<close>

lemma admit_stages: "admit E f past w = (cs, a) \<Longrightarrow> c \<in> set cs \<Longrightarrow> 1 \<le> stage c"
  by (auto simp: admit_def check_Skipper_def check_Overseer_def check_WillWork_def
        split: option.splits prod.splits Admission.splits if_splits)

lemma producer_iteration_no_end:
  "producer_iteration E f wp past n workList = (cs, r) \<Longrightarrow> FlowWillEnd_call \<notin> set cs"
  using admit_stages[of E f past _ _ _ FlowWillEnd_call]
  by (auto simp: producer_iteration_def Let_def split: option.splits prod.splits if_splits Admission.splits)

lemma no_stage0_sent: "(\<And>c. c \<in> set cs \<Longrightarrow> 1 \<le> stage c) \<Longrightarrow> sent cs = []"
proof (induction cs)
  case Nil
  then show ?case by (simp add: sent_def)
next
  case (Cons c cs)
  then have "1 \<le> stage c" and "sent cs = []" by auto
  then show ?case by (cases c) (simp_all add: sent_def)
qed

lemma admit_no_send: "admit E f past w = (cs, a) \<Longrightarrow> sent cs = []"
  using admit_stages[of E f past w cs a] no_stage0_sent[of cs] by blast

lemma producer_iteration_no_send:
  "producer_iteration E f wp past n workList = (cs, r) \<Longrightarrow> sent cs = []"
  using admit_no_send[of E f past]
  by (auto simp: producer_iteration_def Let_def sent_def
        split: option.splits prod.splits if_splits Admission.splits)

lemma sent_append [simp]: "sent (xs @ ys) = sent xs @ sent ys"
  by (simp add: sent_def)

lemma sent_consumer_call: "consumer_call c \<Longrightarrow> sent [c] = []"
  by (cases c) (simp_all add: sent_def)

lemma resultHandler_consumer_calls: "c \<in> set (resultHandler f r) \<Longrightarrow> consumer_call c"
  by (auto simp: resultHandler_def split: option.splits)

lemma consumer_iteration_calls:
  "consumer_iteration f worker i n workList = (cs, brk) \<Longrightarrow> c \<in> set cs \<Longrightarrow> consumer_call c"
  by (auto simp: consumer_iteration_def handle_records_eq after_records_def Let_def
        split: prod.splits option.splits if_splits dest: resultHandler_consumer_calls)

lemma pending_ok_step:
  assumes "pending_ok s"
  shows "pending_ok (step E f g s)"
proof (rule step_cases)
  show "pending_ok s" by fact
next
  show "pending_ok (producer_step E f s)"
    by (cases rule: producer_step_cases[of E f s]) (use assms in \<open>simp_all add: pending_ok_def\<close>)
next
  fix i
  show "pending_ok (consumer_step f i s)"
  proof (cases rule: consumer_step_cases[of f i s])
    case (receive worker n workList rest cs brk)
    then show ?thesis
      using assms consumer_iteration_calls[of f worker i n workList cs brk]
      by (auto simp add: pending_ok_def nth_list_update)
  next
    case (call worker n c cs brk)
    then show ?thesis
      using assms by (fastforce simp add: pending_ok_def nth_list_update)
  qed (use assms in \<open>auto simp add: pending_ok_def nth_list_update\<close>)
next
  show "pending_ok (caller_step f s)"
    using assms by (simp add: pending_ok_def caller_step_def split: option.splits)
next
  show "pending_ok (s\<lparr>interrupt := True\<rparr>)"
    using assms by (simp add: pending_ok_def)
qed

lemma pending_ok_started: "pending_ok (started f)"
  by (simp add: pending_ok_def started_def)

lemma producer_iteration_batching:
  assumes "producer_iteration E f wp past n workList = (cs, Some p)"
    and "int (length workList) < DoWorkInfoListMaxCount f"
  shows "case p of
           Looping workList' \<Rightarrow> int (length workList') < DoWorkInfoListMaxCount f
         | Sending workList' \<Rightarrow> batch_ok f workList'
         | Flushing workList' \<Rightarrow> batch_ok f workList'
         | Closing \<Rightarrow> True
         | Ended \<Rightarrow> True"
  using assms
  by (auto simp: producer_iteration_def Let_def after_loop_def batch_ok_def Suc_le_eq
        split: option.splits prod.splits if_splits Admission.splits)

lemma batching_step:
  assumes "batching f s" and "pending_ok s" and "1 \<le> DoWorkInfoListMaxCount f"
  shows "batching f (step E f g s)"
proof (rule step_cases)
  show "batching f s" by fact
next
  show "batching f (producer_step E f s)"
  proof (cases rule: producer_step_cases[of E f s])
    case (panic workList wp cs)
    then show ?thesis
      using assms producer_iteration_no_send[of E f wp _ _ workList cs None]
      by (simp add: batching_def)
  next
    case (iterate workList wp cs p)
    then show ?thesis
      using assms producer_iteration_no_send[of E f wp _ _ workList cs "Some p"]
        producer_iteration_batching[of E f wp _ _ workList cs p]
      by (simp add: batching_def)
  qed (use assms in \<open>auto simp add: batching_def sent_def\<close>)
next
  fix i
  show "batching f (consumer_step f i s)"
  proof (cases rule: consumer_step_cases[of f i s])
    case (call worker n c cs brk)
    then have "consumer_call c"
      using assms(2) by (fastforce simp: pending_ok_def)
    with call show ?thesis
      using assms(1) by (simp add: batching_def sent_consumer_call)
  qed (use assms in \<open>auto simp add: batching_def sent_def\<close>)
next
  show "batching f (caller_step f s)"
    using assms by (simp add: batching_def caller_step_def sent_def split: option.splits)
next
  show "batching f (s\<lparr>interrupt := True\<rparr>)"
    using assms by (simp add: batching_def)
qed

lemma batching_started: "1 \<le> DoWorkInfoListMaxCount f \<Longrightarrow> batching f (started f)"
  by (simp add: batching_def started_def sent_def split: option.splits)

section \<open>Invariants: closing, leaving, returning\<close>

lemma producer_iteration_not_Ended:
  "producer_iteration E f wp past n workList = (cs, Some p) \<Longrightarrow> p \<noteq> Ended"
  by (auto simp: producer_iteration_def Let_def after_loop_def
        split: option.splits prod.splits if_splits Admission.splits)

lemma closing_step:
  assumes "closing s"
  shows "closing (step E f g s)"
proof (rule step_cases)
  show "closing s" by fact
next
  show "closing (producer_step E f s)"
    by (cases rule: producer_step_cases[of E f s])
       (use assms in \<open>auto simp add: closing_def dest: producer_iteration_not_Ended\<close>)
next
  fix i
  show "closing (consumer_step f i s)"
    by (cases rule: consumer_step_cases[of f i s]) (use assms in \<open>simp_all add: closing_def\<close>)
next
  show "closing (caller_step f s)"
    using assms by (simp add: closing_def caller_step_def split: option.splits)
next
  show "closing (s\<lparr>interrupt := True\<rparr>)"
    using assms by (simp add: closing_def)
qed

lemma closing_started: "closing (started f)"
  by (simp add: closing_def started_def)

lemma quiet_panic_step:
  assumes "quiet_panic s" and "WorkerProvider f \<noteq> None" and "WorkProvider f \<noteq> None"
  shows "quiet_panic (step E f g s)"
proof (cases "panicked s")
  case True
  then show ?thesis using assms by (simp add: step_def)
next
  case False
  show ?thesis
  proof (rule step_cases)
    show "quiet_panic s" by fact
  next
    show "quiet_panic (producer_step E f s)"
      by (cases rule: producer_step_cases[of E f s])
         (use assms False in \<open>auto simp add: quiet_panic_def\<close>)
  next
    fix i
    show "quiet_panic (consumer_step f i s)"
      by (cases rule: consumer_step_cases[of f i s])
         (use assms False in \<open>simp_all add: quiet_panic_def\<close>)
  next
    show "quiet_panic (caller_step f s)"
      using assms False by (simp add: quiet_panic_def caller_step_def split: option.splits)
  next
    show "quiet_panic (s\<lparr>interrupt := True\<rparr>)"
      using assms False by (simp add: quiet_panic_def)
  qed
qed

lemma quiet_panic_started: "quiet_panic (started f)"
  by (simp add: quiet_panic_def started_def)

lemma aligned_no_break:
  assumes "aligned_worker worker" and "workList \<noteq> []"
    and "consumer_iteration f worker i n workList = (cs, brk)"
  shows "\<not> brk"
proof -
  obtain records workErr where d: "DoWork worker n workList = (records, workErr)"
    by (cases "DoWork worker n workList")
  have "map WorkInfo records = map Some workList"
    using assms(1) d by (metis aligned_worker_def fst_conv)
  then have "length records = length workList"
    using length_map by metis
  with assms(2) have "records \<noteq> []" by auto
  with assms(3) d show ?thesis
    by (auto simp: consumer_iteration_def Let_def split: prod.splits if_splits)
qed

lemma workers_ok_step:
  assumes "workers_ok s" and "batching f s"
    and "\<forall>p i. WorkerProvider f = Some p \<longrightarrow> aligned_worker (fst (WorkerProvider_Provide p i))"
  shows "workers_ok (step E f g s)"
proof (rule step_cases)
  show "workers_ok s" by fact
next
  show "workers_ok (producer_step E f s)"
    by (cases rule: producer_step_cases[of E f s]) (use assms in \<open>simp_all add: workers_ok_def\<close>)
next
  fix i
  show "workers_ok (consumer_step f i s)"
  proof (cases rule: consumer_step_cases[of f i s])
    case (create p)
    then show ?thesis
      using assms by (auto simp add: workers_ok_def nth_list_update)
  next
    case (receive worker n workList rest cs brk)
    have a: "aligned_worker worker"
      using receive(1,2) assms(1) by (fastforce simp: workers_ok_def)
    have "workList \<noteq> []"
      using receive(3) assms(2) by (auto simp: batching_def batch_ok_def)
    then have "\<not> brk"
      using aligned_no_break[OF a _ receive(5)] by simp
    with receive a show ?thesis
      using assms(1) by (auto simp add: workers_ok_def nth_list_update)
  next
    case (call worker n c cs brk)
    then have "aligned_worker worker \<and> \<not> brk"
      using assms(1) by (fastforce simp: workers_ok_def)
    with call show ?thesis
      using assms(1) by (auto simp add: workers_ok_def nth_list_update)
  next
    case (continue worker n)
    then have "aligned_worker worker"
      using assms(1) by (fastforce simp: workers_ok_def)
    with continue show ?thesis
      using assms(1) by (auto simp add: workers_ok_def nth_list_update)
  qed (use assms in \<open>auto simp add: workers_ok_def nth_list_update\<close>)
next
  show "workers_ok (caller_step f s)"
    using assms by (simp add: workers_ok_def caller_step_def split: option.splits)
next
  show "workers_ok (s\<lparr>interrupt := True\<rparr>)"
    using assms by (simp add: workers_ok_def)
qed

lemma workers_ok_started: "workers_ok (started f)"
  by (simp add: workers_ok_def started_def)

lemma exits_step:
  assumes "exits f s" and "closing s" and "workers_ok s"
  shows "exits f (step E f g s)"
proof (rule step_cases)
  show "exits f s" by fact
next
  show "exits f (producer_step E f s)"
    by (cases rule: producer_step_cases[of E f s])
       (use assms in \<open>auto simp add: exits_def closing_def\<close>)
next
  fix i
  show "exits f (consumer_step f i s)"
  proof (cases rule: consumer_step_cases[of f i s])
    case (leave worker n brk)
    then have "\<not> brk"
      using assms(3) by (fastforce simp: workers_ok_def)
    with leave show ?thesis
      using assms(1) by (auto simp add: exits_def nth_list_update)
  qed (use assms in \<open>auto simp add: exits_def nth_list_update\<close>)
next
  show "exits f (caller_step f s)"
    using assms by (simp add: exits_def caller_step_def split: option.splits)
next
  show "exits f (s\<lparr>interrupt := True\<rparr>)"
    using assms by (simp add: exits_def)
qed

lemma exits_started: "exits f (started f)"
  by (simp add: exits_def started_def)

lemma returned_late_step:
  assumes "returned_late s" and "wait_counts s" and "pending_ok s"
  shows "returned_late (step E f g s)"
proof (rule step_cases)
  show "returned_late s" by fact
next
  show "returned_late (producer_step E f s)"
    by (cases rule: producer_step_cases[of E f s])
       (use assms in \<open>auto simp add: returned_late_def dest: producer_iteration_no_end\<close>)
next
  fix i
  have ex: "caller s = Returned \<Longrightarrow> i < length (consumers s) \<Longrightarrow> consumers s ! i = Exited"
    using assms sum_live_zero[of "consumers s" "consumers s ! i"]
    by (simp add: returned_late_def wait_counts_def)
  have pend: "i < length (consumers s) \<Longrightarrow> consumers s ! i = Busy w n (c # cs) b
                \<Longrightarrow> c \<noteq> FlowWillEnd_call" for w n c cs b
    using assms(3) by (fastforce simp: pending_ok_def)
  show "returned_late (consumer_step f i s)"
    by (cases rule: consumer_step_cases[of f i s])
       (use assms ex pend in \<open>auto simp add: returned_late_def\<close>)
next
  show "returned_late (caller_step f s)"
    using assms by (simp add: returned_late_def caller_step_def split: option.splits)
next
  show "returned_late (s\<lparr>interrupt := True\<rparr>)"
    using assms by (simp add: returned_late_def)
qed

lemma returned_late_started: "returned_late (started f)"
  by (simp add: returned_late_def started_def split: option.splits)

section \<open>Invariants: accounting of the emitted WorkInfos\<close>

lemma terminal_infos_append [simp]:
  "terminal_infos (xs @ ys) = terminal_infos xs @ terminal_infos ys"
  by (simp add: terminal_infos_def)

lemma terminal_infos_Cons:
  "terminal_infos (c # cs) = terminal_info c @ terminal_infos cs"
  by (simp add: terminal_infos_def)

lemma terminal_infos_Nil [simp]: "terminal_infos [] = []"
  by (simp add: terminal_infos_def)

lemma emitted_until_Suc:
  "emitted_until wp (Suc n) = emitted_until wp n @ emitted (WorkProvider_Provide wp n)"
  by (simp add: emitted_until_def)

lemma admit_terminal:
  "admit E f past w = (cs, a) \<Longrightarrow> terminal_infos cs = (if a = Skipped then [Some w] else [])"
  by (auto simp: admit_def check_Skipper_def check_Overseer_def check_WillWork_def
        terminal_infos_def
        split: option.splits prod.splits Admission.splits if_splits)

lemma producer_iteration_accounts:
  assumes "producer_iteration E f wp past n workList = (cs, Some p)"
  shows "mset (terminal_infos cs) + mset (map Some (buffer p))
           = mset (emitted (WorkProvider_Provide wp n)) + mset (map Some workList)"
  using assms admit_terminal[of E f past]
  by (auto simp: producer_iteration_def Let_def after_loop_def emitted_def terminal_infos_Cons
        split: option.splits prod.splits if_splits Admission.splits)

lemma resultHandler_terminal: "terminal_infos (resultHandler f r) = [WorkInfo r]"
  by (auto simp: resultHandler_def terminal_infos_def split: option.splits)

lemma fallback_WorkInfo: "WorkInfo (fallback workErr r) = WorkInfo r"
  by (simp add: fallback_def)

lemma handled_terminal:
  "terminal_infos (concat (map (\<lambda>r. resultHandler f (fallback workErr r)) records))
     = map WorkInfo records"
  by (induction records) (simp_all add: resultHandler_terminal fallback_WorkInfo)

lemma after_records_terminal: "terminal_infos (after_records f workList h) = []"
  by (auto simp add: after_records_def terminal_infos_def split: option.splits)

lemma consumer_iteration_terminal:
  assumes "aligned_worker worker"
    and "consumer_iteration f worker i n workList = (cs, brk)"
  shows "terminal_infos cs = map Some workList"
proof -
  obtain records workErr where d: "DoWork worker n workList = (records, workErr)"
    by (cases "DoWork worker n workList")
  have al: "map WorkInfo records = map Some workList"
    using assms(1) d by (metis aligned_worker_def fst_conv)
  show ?thesis
  proof (cases "length records = 0 \<and> workErr \<noteq> None")
    case True
    then have "workList = []" using al by auto
    with True d assms(2) show ?thesis
      by (auto simp: consumer_iteration_def Let_def terminal_infos_Cons split: option.splits)
  next
    case False
    with d assms(2) al show ?thesis
      by (auto simp: consumer_iteration_def Let_def handle_records_eq handled_terminal
            after_records_terminal terminal_infos_Cons split: option.splits)
  qed
qed

lemma in_flight_update:
  "i < length xs \<Longrightarrow>
     in_flight (xs[i := y]) + mset (terminal_infos (pending (xs ! i)))
       = in_flight xs + mset (terminal_infos (pending y))"
proof (induction xs arbitrary: i)
  case Nil
  then show ?case by simp
next
  case (Cons x xs)
  then show ?case by (cases i) (simp_all add: in_flight_def ac_simps)
qed

lemma in_flight_same:
  assumes "i < length xs" and "terminal_infos (pending y) = terminal_infos (pending (xs ! i))"
  shows "in_flight (xs[i := y]) = in_flight xs"
  using in_flight_update[OF assms(1), of y] assms(2) by simp

lemma in_flight_replicate [simp]: "in_flight (replicate n Created) = {#}"
  by (induction n) (simp_all add: in_flight_def)

lemma account_iterate:
  fixes T :: "'a multiset"
  assumes "T + B + C + F = U" and "X + P = Em + B"
  shows "(T + X) + P + C + F = U + Em"
proof -
  have "(T + X) + P + C + F = T + (X + P) + C + F" by (simp add: add.assoc)
  also have "\<dots> = T + (Em + B) + C + F" by (simp only: assms(2))
  also have "\<dots> = (T + B + C + F) + Em" by (simp add: ac_simps)
  finally show ?thesis by (simp only: assms(1))
qed

lemma account_send:
  fixes T :: "'a multiset"
  assumes "T + B + C + F = U"
  shows "T + {#} + (C + B) + F = U"
proof -
  have "T + {#} + (C + B) + F = T + B + C + F" by (simp add: ac_simps)
  then show ?thesis by (simp only: assms)
qed

lemma account_receive:
  fixes T :: "'a multiset"
  assumes "T + B + (W + C) + F = U" and "F' = F + W"
  shows "T + B + C + F' = U"
proof -
  have "T + B + C + F' = T + B + (W + C) + F" by (simp add: assms(2) ac_simps)
  then show ?thesis by (simp only: assms(1))
qed

lemma account_call:
  fixes T :: "'a multiset"
  assumes "T + B + C + F = U" and "F' + X = F"
  shows "(T + X) + B + C + F' = U"
proof -
  have "(T + X) + B + C + F' = T + B + C + (F' + X)" by (simp add: ac_simps)
  then show ?thesis by (simp only: assms)
qed

lemma accounted_producer_step:
  assumes "accounted wp s" and "WorkProvider f = Some wp"
  shows "accounted wp (producer_step E f s)"
proof (cases rule: producer_step_cases[of E f s])
  case idle
  then show ?thesis using assms by simp
next
  case no_provider
  then show ?thesis by (simp add: accounted_def)
next
  case (panic workList wp' cs)
  then show ?thesis by (simp add: accounted_def)
next
  case (iterate workList wp' cs p)
  then have it: "producer_iteration E f wp (recorded (calls s)) (provided s) workList = (cs, Some p)"
    using assms(2) by simp
  show ?thesis
    unfolding accounted_def
  proof
    assume "\<not> interrupt (producer_step E f s) \<and> \<not> panicked (producer_step E f s)"
    then have "\<not> interrupt s \<and> \<not> panicked s" using iterate(4) by simp
    then have "mset (terminal_infos (calls s)) + mset (map Some workList)
          + mset (map Some (concat (workChan s))) + in_flight (consumers s)
        = mset (emitted_until wp (provided s))"
      using assms(1) iterate(1) by (simp add: accounted_def)
    from account_iterate[OF this producer_iteration_accounts[OF it]]
    show "mset (terminal_infos (calls (producer_step E f s)))
          + mset (map Some (buffer (producer (producer_step E f s))))
          + mset (map Some (concat (workChan (producer_step E f s))))
          + in_flight (consumers (producer_step E f s))
        = mset (emitted_until wp (provided (producer_step E f s)))"
      using iterate(4) by (simp add: emitted_until_Suc)
  qed
next
  case (send workList)
  show ?thesis
    unfolding accounted_def
  proof
    assume "\<not> interrupt (producer_step E f s) \<and> \<not> panicked (producer_step E f s)"
    then have "\<not> interrupt s \<and> \<not> panicked s" using send(3) by simp
    then have "mset (terminal_infos (calls s)) + mset (map Some workList)
          + mset (map Some (concat (workChan s))) + in_flight (consumers s)
        = mset (emitted_until wp (provided s))"
      using assms(1) send(1) by (simp add: accounted_def)
    from account_send[OF this]
    show "mset (terminal_infos (calls (producer_step E f s)))
          + mset (map Some (buffer (producer (producer_step E f s))))
          + mset (map Some (concat (workChan (producer_step E f s))))
          + in_flight (consumers (producer_step E f s))
        = mset (emitted_until wp (provided (producer_step E f s)))"
      using send(3) by (simp add: terminal_infos_Cons)
  qed
next
  case (flush workList)
  show ?thesis
    unfolding accounted_def
  proof
    assume "\<not> interrupt (producer_step E f s) \<and> \<not> panicked (producer_step E f s)"
    then have "\<not> interrupt s \<and> \<not> panicked s" using flush(3) by simp
    then have "mset (terminal_infos (calls s)) + mset (map Some workList)
          + mset (map Some (concat (workChan s))) + in_flight (consumers s)
        = mset (emitted_until wp (provided s))"
      using assms(1) flush(1) by (simp add: accounted_def)
    from account_send[OF this]
    show "mset (terminal_infos (calls (producer_step E f s)))
          + mset (map Some (buffer (producer (producer_step E f s))))
          + mset (map Some (concat (workChan (producer_step E f s))))
          + in_flight (consumers (producer_step E f s))
        = mset (emitted_until wp (provided (producer_step E f s)))"
      using flush(3) by (simp add: terminal_infos_Cons)
  qed
next
  case close
  then show ?thesis using assms(1) by (simp add: accounted_def terminal_infos_Cons)
qed

lemma accounted_consumer_step:
  assumes "accounted wp s" and "workers_ok s"
  shows "accounted wp (consumer_step f i s)"
proof (cases rule: consumer_step_cases[of f i s])
  case idle
  then show ?thesis using assms by simp
next
  case no_provider
  then show ?thesis by (simp add: accounted_def)
next
  case (create_fail p)
  then show ?thesis
    using assms(1) in_flight_same[of i "consumers s" Failed]
    by (simp add: accounted_def terminal_infos_Cons)
next
  case (create p)
  then show ?thesis
    using assms(1) in_flight_same[of i "consumers s" "Idle (fst (WorkerProvider_Provide p i)) 0"]
    by (simp add: accounted_def terminal_infos_Cons)
next
  case (drained worker n)
  then show ?thesis
    using assms(1) in_flight_same[of i "consumers s" Exited]
    by (simp add: accounted_def)
next
  case (interrupted worker n workList rest)
  then show ?thesis by (simp add: accounted_def)
next
  case (receive worker n workList rest cs brk)
  have a: "aligned_worker worker"
    using receive(1,2) assms(2) by (fastforce simp: workers_ok_def)
  have t: "terminal_infos cs = map Some workList"
    using consumer_iteration_terminal[OF a receive(5)] .
  have fl: "in_flight ((consumers s)[i := Busy worker (Suc n) cs brk])
          = in_flight (consumers s) + mset (map Some workList)"
    using in_flight_update[OF receive(1), of "Busy worker (Suc n) cs brk"] receive(2) t
    by simp
  show ?thesis
    unfolding accounted_def
  proof
    assume "\<not> interrupt (consumer_step f i s) \<and> \<not> panicked (consumer_step f i s)"
    then have "\<not> interrupt s \<and> \<not> panicked s" using receive(6) by simp
    then have "mset (terminal_infos (calls s)) + mset (map Some (buffer (producer s)))
          + (mset (map Some workList) + mset (map Some (concat rest))) + in_flight (consumers s)
        = mset (emitted_until wp (provided s))"
      using assms(1) receive(3) by (simp add: accounted_def)
    from account_receive[OF this fl]
    show "mset (terminal_infos (calls (consumer_step f i s)))
          + mset (map Some (buffer (producer (consumer_step f i s))))
          + mset (map Some (concat (workChan (consumer_step f i s))))
          + in_flight (consumers (consumer_step f i s))
        = mset (emitted_until wp (provided (consumer_step f i s)))"
      using receive(6) by simp
  qed
next
  case (call worker n c cs brk)
  have fl: "in_flight ((consumers s)[i := Busy worker n cs brk]) + mset (terminal_info c)
          = in_flight (consumers s)"
    using in_flight_update[OF call(1), of "Busy worker n cs brk"] call(2)
    by (simp add: terminal_infos_Cons ac_simps)
  show ?thesis
    unfolding accounted_def
  proof
    assume "\<not> interrupt (consumer_step f i s) \<and> \<not> panicked (consumer_step f i s)"
    then have "\<not> interrupt s \<and> \<not> panicked s" using call(3) by simp
    then have "mset (terminal_infos (calls s)) + mset (map Some (buffer (producer s)))
          + mset (map Some (concat (workChan s))) + in_flight (consumers s)
        = mset (emitted_until wp (provided s))"
      using assms(1) by (simp add: accounted_def)
    from account_call[OF this fl]
    show "mset (terminal_infos (calls (consumer_step f i s)))
          + mset (map Some (buffer (producer (consumer_step f i s))))
          + mset (map Some (concat (workChan (consumer_step f i s))))
          + in_flight (consumers (consumer_step f i s))
        = mset (emitted_until wp (provided (consumer_step f i s)))"
      using call(3) by (simp add: terminal_infos_Cons)
  qed
next
  case (leave worker n brk)
  then show ?thesis
    using assms(1) in_flight_same[of i "consumers s" Exited]
    by (simp add: accounted_def)
next
  case (continue worker n)
  then show ?thesis
    using assms(1) in_flight_same[of i "consumers s" "Idle worker n"]
    by (simp add: accounted_def)
qed

lemma accounted_step:
  assumes "accounted wp s" and "WorkProvider f = Some wp" and "workers_ok s"
  shows "accounted wp (step E f g s)"
proof (rule step_cases)
  show "accounted wp s" by fact
next
  show "accounted wp (producer_step E f s)"
    using assms(1,2) by (rule accounted_producer_step)
next
  fix i
  show "accounted wp (consumer_step f i s)"
    using assms(1,3) by (rule accounted_consumer_step)
next
  show "accounted wp (caller_step f s)"
    using assms by (simp add: accounted_def caller_step_def terminal_infos_Cons split: option.splits)
next
  show "accounted wp (s\<lparr>interrupt := True\<rparr>)"
    by (simp add: accounted_def)
qed

lemma accounted_started: "accounted wp (started f)"
  by (simp add: accounted_def started_def emitted_until_def terminal_infos_Cons split: option.splits)

section \<open>Every run of Start\<close>

lemma length_consumers_step: "length (consumers (step E f g s)) = length (consumers s)"
proof (rule step_cases[where P = "\<lambda>t. length (consumers t) = length (consumers s)"])
  show "length (consumers (producer_step E f s)) = length (consumers s)"
    by (cases rule: producer_step_cases[of E f s]) simp_all
next
  fix i
  show "length (consumers (consumer_step f i s)) = length (consumers s)"
    by (cases rule: consumer_step_cases[of f i s]) simp_all
next
  show "length (consumers (caller_step f s)) = length (consumers s)"
    by (simp add: caller_step_def split: option.splits)
qed simp_all

lemma consistent_step:
  assumes "consistent f s" and "checked f"
  shows "consistent f (step E f g s)"
  using assms
  by (simp add: consistent_def checked_def wait_counts_step failures_stay_step pending_ok_step
        batching_step closing_step quiet_panic_step returned_late_step length_consumers_step)

lemma consistent_started: "checked f \<Longrightarrow> consistent f (started f)"
  using wait_counts_started[of f] failures_stay_started[of f] pending_ok_started[of f]
    batching_started[of f] closing_started[of f] quiet_panic_started[of f]
    returned_late_started[of f]
  by (simp add: consistent_def checked_def) (simp add: started_def)

lemma consistent_run:
  assumes "checked f"
  shows "consistent f (run E f sched (started f))"
  by (rule run_invariant) (simp_all add: consistent_started consistent_step assms)

lemma settled_step:
  assumes "settled f wp s" and "checked f" and "WorkProvider f = Some wp"
    and "\<forall>p i. WorkerProvider f = Some p \<longrightarrow> aligned_worker (fst (WorkerProvider_Provide p i))"
  shows "settled f wp (step E f g s)"
proof -
  have c: "consistent f s" and w: "workers_ok s" and e: "exits f s" and a: "accounted wp s"
    using assms(1) by (simp_all add: settled_def)
  have b: "batching f s" and cl: "closing s"
    using c by (simp_all add: consistent_def)
  show ?thesis
    unfolding settled_def
    using consistent_step[OF c assms(2)] workers_ok_step[OF w b assms(4)]
      exits_step[OF e cl w] accounted_step[OF a assms(3) w]
    by simp
qed

lemma settled_run:
  assumes "checked f" and "WorkProvider f = Some wp"
    and "\<forall>p i. WorkerProvider f = Some p \<longrightarrow> aligned_worker (fst (WorkerProvider_Provide p i))"
  shows "settled f wp (run E f sched (started f))"
proof (rule run_invariant)
  show "settled f wp (started f)"
    using assms(1) by (simp add: settled_def consistent_started workers_ok_started
        exits_started accounted_started)
next
  fix s g
  assume "settled f wp s"
  then show "settled f wp (step E f g s)"
    using assms by (rule settled_step)
qed

lemma Start_not_started:
  assumes "\<not> starts E f"
  shows "Start E f sched = not_started [] \<or> Start E f sched = not_started [FlowWillStart_call]"
proof (cases "Flow_Check E f")
  case (Pair f1 err)
  show ?thesis
  proof (cases err)
    case (Some e)
    with Pair show ?thesis by (simp add: Start_def)
  next
    case None
    with Pair have "Force (Info f1) = Force (Info f)" "EventListener f1 = EventListener f"
      using Flow_Check_ok(13,6)[of E f f1] by simp_all
    with Pair None assms show ?thesis
      by (auto simp: Start_def starts_def split: option.splits)
  qed
qed

lemma Start_started:
  assumes "starts E f"
  shows "Start E f sched = run E (fst (Flow_Check E f)) sched (started (fst (Flow_Check E f)))"
proof (cases "Flow_Check E f")
  case (Pair f1 err)
  with assms have e: "err = None" by (simp add: starts_def)
  with Pair have "Force (Info f1) = Force (Info f)" "EventListener f1 = EventListener f"
    using Flow_Check_ok(13,6)[of E f f1] by simp_all
  with Pair e assms show ?thesis
    by (auto simp: Start_def starts_def split: option.splits)
qed

lemma Start_cases:
  obtains (refused) cs where "\<not> starts E f" "Start E f sched = not_started cs"
      "cs = [] \<or> cs = [FlowWillStart_call]"
  | (runs) f1 where "starts E f" "Flow_Check E f = (f1, None)" "checked f1"
      "Start E f sched = run E f1 sched (started f1)"
proof (cases "starts E f")
  case False
  then show ?thesis using Start_not_started[of E f sched] refused by blast
next
  case True
  then have fc: "Flow_Check E f = (fst (Flow_Check E f), None)"
    by (simp add: starts_def prod_eq_iff)
  then have "checked (fst (Flow_Check E f))"
    using Flow_Check_ok(1-4)[of E f "fst (Flow_Check E f)"] by (simp add: checked_def)
  with True fc show ?thesis using runs Start_started[of E f sched] by blast
qed

section \<open>Admission order\<close>

lemma dispatched_append [simp]: "dispatched (xs @ ys) = dispatched xs @ dispatched ys"
  by (simp add: dispatched_def)

lemma dispatched_Cons: "dispatched (c # cs) = dispatched_batch c @ dispatched cs"
  by (simp add: dispatched_def)

lemma dispatched_Nil [simp]: "dispatched [] = []"
  by (simp add: dispatched_def)

lemma no_stage0_dispatched: "(\<And>c. c \<in> set cs \<Longrightarrow> 1 \<le> stage c) \<Longrightarrow> dispatched cs = []"
proof (induction cs)
  case Nil
  then show ?case by simp
next
  case (Cons c cs)
  then have "1 \<le> stage c" and "dispatched cs = []" by auto
  then show ?case by (cases c) (simp_all add: dispatched_Cons)
qed

lemma admit_dispatched: "admit E f past w = (cs, a) \<Longrightarrow> dispatched cs = []"
  using admit_stages[of E f past w cs a] no_stage0_dispatched[of cs] by blast

lemma admit_Admitted_passed:
  "admit E f past w = (cs, Admitted) \<Longrightarrow> passes_Skipper f w \<and> passes_WillWork f w"
  by (auto simp: admit_def check_Skipper_def check_WillWork_def passes_Skipper_def
        passes_WillWork_def split: option.splits prod.splits Admission.splits if_splits)

lemma producer_iteration_dispatched:
  "producer_iteration E f wp past n workList = (cs, r) \<Longrightarrow> dispatched cs = []"
  using admit_dispatched[of E f past]
  by (auto simp: producer_iteration_def Let_def dispatched_Cons
        split: option.splits prod.splits if_splits Admission.splits)

lemma producer_iteration_passed:
  assumes "producer_iteration E f wp past n workList = (cs, Some p)"
    and "\<forall>w \<in> set workList. passed f w"
  shows "\<forall>w \<in> set (buffer p). passed f w"
  using assms admit_Admitted_passed[of E f past]
  by (auto simp: producer_iteration_def Let_def after_loop_def passed_def
        split: option.splits prod.splits if_splits Admission.splits)

lemma handled_dispatched:
  "dispatched (concat (map (\<lambda>r. resultHandler f (fallback workErr r)) records)) = []"
  by (induction records) (auto simp: resultHandler_def dispatched_Cons split: option.splits)

lemma consumer_iteration_dispatched:
  "consumer_iteration f worker i n workList = (cs, brk) \<Longrightarrow> dispatched cs = workList"
  by (auto simp: consumer_iteration_def Let_def handle_records_eq handled_dispatched
        after_records_def dispatched_Cons split: prod.splits option.splits if_splits)

lemma only_passed_step:
  assumes "only_passed f s"
  shows "only_passed f (step E f g s)"
proof (rule step_cases)
  show "only_passed f s" by fact
next
  show "only_passed f (producer_step E f s)"
  proof (cases rule: producer_step_cases[of E f s])
    case (panic workList wp cs)
    then show ?thesis
      using assms producer_iteration_dispatched[of E f wp _ _ workList cs None]
      by (simp add: only_passed_def)
  next
    case (iterate workList wp cs p)
    then show ?thesis
      using assms producer_iteration_dispatched[of E f wp _ _ workList cs "Some p"]
        producer_iteration_passed[of E f wp _ _ workList cs p]
      by (simp add: only_passed_def)
  qed (use assms in \<open>auto simp add: only_passed_def dispatched_Cons\<close>)
next
  fix i
  show "only_passed f (consumer_step f i s)"
  proof (cases rule: consumer_step_cases[of f i s])
    case (receive worker n workList rest cs brk)
    then show ?thesis
      using assms consumer_iteration_dispatched[of f worker i n workList cs brk]
      by (auto simp add: only_passed_def nth_list_update)
  next
    case (call worker n c cs brk)
    then have "\<forall>w \<in> set (dispatched_batch c @ dispatched cs). passed f w"
      using assms by (fastforce simp: only_passed_def dispatched_Cons)
    with call show ?thesis
      using assms by (auto simp add: only_passed_def nth_list_update dispatched_Cons)
  qed (use assms in \<open>auto simp add: only_passed_def nth_list_update dispatched_Cons\<close>)
next
  show "only_passed f (caller_step f s)"
    using assms by (simp add: only_passed_def caller_step_def dispatched_Cons split: option.splits)
next
  show "only_passed f (s\<lparr>interrupt := True\<rparr>)"
    using assms by (simp add: only_passed_def)
qed

lemma only_passed_started: "only_passed f (started f)"
  by (simp add: only_passed_def started_def dispatched_Cons split: option.splits)

lemma only_passed_Start:
  "\<forall>w \<in> set (dispatched (calls (Start E f sched))).
      Work w \<noteq> None \<and> passes_Skipper f w \<and> passes_WillWork f w"
proof (cases rule: Start_cases[of E f sched])
  case (refused cs)
  then show ?thesis by (auto simp: not_started_def dispatched_Cons)
next
  case (runs f1)
  have "only_passed f1 (run E f1 sched (started f1))"
    by (rule run_invariant) (simp_all add: only_passed_started only_passed_step)
  moreover have "passed f1 w = passed f w" for w
    using Flow_Check_ok(6,8)[OF runs(2)]
    by (simp add: passed_def passes_Skipper_def passes_WillWork_def)
  ultimately show ?thesis
    using runs(4) by (simp add: only_passed_def passed_def)
qed

text \<open>
  Claim C5: the admission order is strict. For a WorkInfo with non-nil Work the calls of
  one admission are strictly ordered by stage (Skipper, Overseer, Redo, WillWork, skip
  event), so each collaborator is asked at most once, in this order, and the skip
  event comes last; the Overseer is asked only when the Skipper let the work pass, and
  WillWork only when Skipper and Overseer/Redo let it pass; exactly one OnWorkSkip is
  emitted when the work is skipped and none otherwise; a Skipper's skip is reported as
  OnWorkSkip(work, nil, cause) and a refusal of WillWork as OnWorkSkip(work, nil, err);
  the work is admitted iff it passes all three checks, and only then the loop iteration
  appends it to the batch buffer: a skipped work leaves the buffer as it was. Under
  every schedule, every WorkInfo in a batch handed to \<^verbatim>\<open>DoWork\<close> has passed the Skipper
  and WillWork.
\<close>

theorem C5_admission_order:
  "sorted_wrt (<) (map stage (fst (admit E f past w)))
   \<and> length (filter is_OnWorkSkip (fst (admit E f past w)))
       = (if snd (admit E f past w) = Skipped then 1 else 0)
   \<and> (ShouldSkip_call w \<in> set (fst (admit E f past w)) \<longleftrightarrow> Skipper f \<noteq> None)
   \<and> (GetWorkRecordIfHasDone_call w \<in> set (fst (admit E f past w))
        \<longleftrightarrow> passes_Skipper f w \<and> Overseer f \<noteq> None)
   \<and> (WillWork_call w \<in> set (fst (admit E f past w))
        \<longleftrightarrow> passes_Skipper f w \<and> passes_Overseer f past w)
   \<and> (snd (admit E f past w) = Admitted
        \<longleftrightarrow> passes_Skipper f w \<and> passes_Overseer f past w \<and> passes_WillWork f w)
   \<and> (\<forall>sk. Skipper f = Some sk \<and> fst (ShouldSkip sk w) \<longrightarrow>
         admit E f past w
           = ([ShouldSkip_call w, OnWorkSkip (Some w) None (snd (ShouldSkip sk w))], Skipped))
   \<and> (passes_Skipper f w \<and> passes_Overseer f past w \<and> \<not> passes_WillWork f w \<longrightarrow>
         snd (admit E f past w) = Skipped
         \<and> last (fst (admit E f past w))
             = OnWorkSkip (Some w) None (snd (WillWork (EventListener f) w)))
   \<and> (WorkProvider_Provide wp n = (hasMore, Some w, None) \<and> Work w \<noteq> None \<longrightarrow>
         producer_iteration E f wp past n workList
           = (Provide_call # fst (admit E f past w),
              case snd (admit E f past w) of
                Admitted \<Rightarrow>
                  Some (if DoWorkInfoListMaxCount f \<le> int (length (workList @ [w]))
                        then Sending (workList @ [w]) else Looping (workList @ [w]))
              | Skipped \<Rightarrow> Some (Looping workList)
              | Panicked \<Rightarrow> None))
   \<and> (\<forall>x \<in> set (dispatched (calls (Start E f sched))).
         Work x \<noteq> None \<and> passes_Skipper f x \<and> passes_WillWork f x)"
proof -
  have ord: "sorted_wrt (<) (map stage (fst (admit E f past w)))"
    using check_Overseer_stages(1,2,3)[of E f past w] check_Overseer_passes[of E f past w]
    by (auto simp: admit_cases check_Skipper_cases check_WillWork_cases passes_Skipper_def
          sorted_wrt_append split: option.splits)
  have one: "length (filter is_OnWorkSkip (fst (admit E f past w)))
       = (if snd (admit E f past w) = Skipped then 1 else 0)"
    using check_Overseer_stages(4)[of E f past w] check_Overseer_passes[of E f past w]
    by (auto simp: admit_cases check_Skipper_cases check_WillWork_cases passes_Skipper_def
          split: option.splits)
  have q1: "ShouldSkip_call w \<in> set (fst (admit E f past w)) \<longleftrightarrow> Skipper f \<noteq> None"
    using check_Overseer_stages(6)[of w E f past]
    by (auto simp: admit_cases check_Skipper_cases check_WillWork_cases passes_Skipper_def
          split: option.splits)
  have q2: "GetWorkRecordIfHasDone_call w \<in> set (fst (admit E f past w))
        \<longleftrightarrow> passes_Skipper f w \<and> Overseer f \<noteq> None"
    using check_Overseer_stages(7)[of w E f past]
    by (auto simp: admit_cases check_Skipper_cases check_WillWork_cases passes_Skipper_def
          split: option.splits)
  have q3: "WillWork_call w \<in> set (fst (admit E f past w))
        \<longleftrightarrow> passes_Skipper f w \<and> passes_Overseer f past w"
    using check_Overseer_stages(5)[of w E f past]
    by (auto simp: admit_cases check_Skipper_cases check_WillWork_cases passes_Skipper_def
          split: option.splits)
  have adm: "snd (admit E f past w) = Admitted
        \<longleftrightarrow> passes_Skipper f w \<and> passes_Overseer f past w \<and> passes_WillWork f w"
    using check_Overseer_passes[of E f past w]
    by (auto simp: admit_cases check_Skipper_cases check_WillWork_cases passes_Skipper_def
          split: option.splits)
  have sk: "\<forall>sk. Skipper f = Some sk \<and> fst (ShouldSkip sk w) \<longrightarrow>
         admit E f past w
           = ([ShouldSkip_call w, OnWorkSkip (Some w) None (snd (ShouldSkip sk w))], Skipped)"
    by (auto simp: admit_cases check_Skipper_cases passes_Skipper_def)
  have ww: "passes_Skipper f w \<and> passes_Overseer f past w \<and> \<not> passes_WillWork f w \<longrightarrow>
         snd (admit E f past w) = Skipped
         \<and> last (fst (admit E f past w))
             = OnWorkSkip (Some w) None (snd (WillWork (EventListener f) w))"
    by (auto simp: admit_cases check_WillWork_cases)
  have it: "WorkProvider_Provide wp n = (hasMore, Some w, None) \<and> Work w \<noteq> None \<longrightarrow>
         producer_iteration E f wp past n workList
           = (Provide_call # fst (admit E f past w),
              case snd (admit E f past w) of
                Admitted \<Rightarrow>
                  Some (if DoWorkInfoListMaxCount f \<le> int (length (workList @ [w]))
                        then Sending (workList @ [w]) else Looping (workList @ [w]))
              | Skipped \<Rightarrow> Some (Looping workList)
              | Panicked \<Rightarrow> None)"
    by (cases "admit E f past w")
       (auto simp: producer_iteration_def Let_def split: Admission.splits)
  have disp: "\<forall>x \<in> set (dispatched (calls (Start E f sched))).
         Work x \<noteq> None \<and> passes_Skipper f x \<and> passes_WillWork f x"
    by (rule only_passed_Start)
  show ?thesis using ord one q1 q2 q3 adm sk ww it disp by blast
qed

lemma gated_run:
  "dispatched (calls (Start sample_env gated_flow gated_schedule)) = [item ''a'']
   \<and> terminal_infos (calls (Start sample_env gated_flow gated_schedule))
       = [Some (item ''s''), Some (item ''w''), Some (item ''a'')]"
  by code_simp

theorem C5_admission_order_witness:
  "passes_Skipper gated_flow (item ''w'')
   \<and> passes_Overseer gated_flow [] (item ''w'')
   \<and> \<not> passes_WillWork gated_flow (item ''w'')
   \<and> admit sample_env gated_flow [] (item ''w'')
       = ([ShouldSkip_call (item ''w''), GetWorkRecordIfHasDone_call (item ''w''),
           WillWork_call (item ''w''),
           OnWorkSkip (Some (item ''w'')) None (Some \<lparr>Code = 9, Desc = ''refused''\<rparr>)],
          Skipped)
   \<and> WorkProvider_Provide gated_script 2 = (True, Some (item ''w''), None)
   \<and> Work (item ''w'') \<noteq> None
   \<and> snd (producer_iteration sample_env gated_flow gated_script [] 2 [item ''a''])
       = Some (Looping [item ''a''])
   \<and> Skipper gated_flow = Some gated_skipper
   \<and> fst (ShouldSkip gated_skipper (item ''s''))
   \<and> admit sample_env gated_flow [] (item ''s'')
       = ([ShouldSkip_call (item ''s''),
           OnWorkSkip (Some (item ''s'')) None (Some \<lparr>Code = 8, Desc = ''skipped''\<rparr>)],
          Skipped)
   \<and> dispatched (calls (Start sample_env gated_flow gated_schedule)) = [item ''a'']
   \<and> passes_Skipper gated_flow (item ''a'') \<and> passes_WillWork gated_flow (item ''a'')"
proof -
  have e: "dispatched (calls (Start sample_env gated_flow gated_schedule)) = [item ''a'']"
    using gated_run by simp
  have a: "passes_Skipper gated_flow (item ''a'') \<and> passes_WillWork gated_flow (item ''a'')"
    using C5_admission_order[of sample_env gated_flow "[]" "item ''w''"
          gated_script 2 True "[item ''a'']" gated_schedule] e
    by simp
  have b: "passes_Skipper gated_flow (item ''w'')
   \<and> passes_Overseer gated_flow [] (item ''w'')
   \<and> \<not> passes_WillWork gated_flow (item ''w'')
   \<and> WorkProvider_Provide gated_script 2 = (True, Some (item ''w''), None)
   \<and> Work (item ''w'') \<noteq> None
   \<and> Skipper gated_flow = Some gated_skipper
   \<and> fst (ShouldSkip gated_skipper (item ''s''))"
    by (simp add: gated_flow_def gated_skipper_def gated_script_def sample_flow_def
        sample_listener_def passes_Skipper_def passes_Overseer_def passes_WillWork_def
        item_def script_def)
  have c: "admit sample_env gated_flow [] (item ''w'')
       = ([ShouldSkip_call (item ''w''), GetWorkRecordIfHasDone_call (item ''w''),
           WillWork_call (item ''w''),
           OnWorkSkip (Some (item ''w'')) None (Some \<lparr>Code = 9, Desc = ''refused''\<rparr>)],
          Skipped)
   \<and> admit sample_env gated_flow [] (item ''s'')
       = ([ShouldSkip_call (item ''s''),
           OnWorkSkip (Some (item ''s'')) None (Some \<lparr>Code = 8, Desc = ''skipped''\<rparr>)],
          Skipped)"
    by (simp add: gated_flow_def gated_skipper_def sample_flow_def sample_listener_def
        item_def admit_def check_Skipper_def check_Overseer_def check_WillWork_def)
  have d: "snd (producer_iteration sample_env gated_flow gated_script [] 2 [item ''a''])
       = Some (Looping [item ''a''])"
    using C5_admission_order[of sample_env gated_flow "[]" "item ''w''"
          gated_script 2 True "[item ''a'']" gated_schedule] b c
    by simp
  show ?thesis using a b c d e by simp
qed

section \<open>A worker that cannot be constructed\<close>

text \<open>
  Claim C2 says that \<^verbatim>\<open>Start\<close> returns and runs the end hook although
  \<^verbatim>\<open>WorkerProvider.Provide\<close> fails for a consumer. The code does the opposite: the
  consumer returns at line 164 without \<^verbatim>\<open>wait.Done()\<close>, so the counter that
  \<^verbatim>\<open>wait.Add(f.Info.WorkerCount)\<close> has set never reaches zero. If \<^verbatim>\<open>Start\<close> gets
  past its checks and the construction of the worker fails for one consumer, then
  under every schedule the caller is still waiting in \<^verbatim>\<open>wait.Wait()\<close> and
  \<^verbatim>\<open>FlowWillEndFunc\<close> has not been called.
\<close>

theorem C2_construction_failure:
  assumes "starts E f" and "construction_fails f i"
    and "int i < max 1 (WorkerCount (Info f))"
  shows "caller (Start E f sched) = Waiting
       \<and> FlowWillEnd_call \<notin> set (calls (Start E f sched))"
proof (cases rule: Start_cases[of E f sched])
  case (refused cs)
  then show ?thesis using assms(1) by simp
next
  case (runs f1)
  let ?s = "run E f1 sched (started f1)"
  have c: "consistent f1 ?s" using runs(3) by (rule consistent_run)
  have wp: "WorkerProvider f1 = WorkerProvider f"
    using Flow_Check_ok(11)[OF runs(2)] .
  have wc: "WorkerCount (Info f1) = max 1 (WorkerCount (Info f))"
    using runs(2) by (auto simp: Flow_Check_def Info_Check_def Let_def split: option.splits if_splits)
  have len: "i < length (consumers ?s)"
    using c assms(3) wc by (simp add: consistent_def)
  have "construction_fails f1 i"
    using assms(2) wp by (simp add: construction_fails_def)
  then have "consumers ?s ! i \<noteq> Exited"
    using c len by (auto simp: consistent_def failures_stay_def)
  then have "1 \<le> wait ?s"
    using sum_live_pos[OF len] c by (simp add: consistent_def wait_counts_def)
  then have "caller ?s \<noteq> Returned" and "FlowWillEnd_call \<notin> set (calls ?s)"
    using c by (auto simp: consistent_def returned_late_def)
  then show ?thesis
    using runs(4) by (cases "caller ?s") simp_all
qed

lemma doomed_run:
  "caller (Start sample_env doomed_flow sample_schedule) = Waiting
   \<and> producer (Start sample_env doomed_flow sample_schedule) = Ended
   \<and> workChan (Start sample_env doomed_flow sample_schedule) = []
   \<and> wait (Start sample_env doomed_flow sample_schedule) = 1
   \<and> terminal_infos (calls (Start sample_env doomed_flow sample_schedule)) = [Some (item ''a'')]"
  by code_simp

theorem C2_construction_failure_witness:
  "starts sample_env doomed_flow
   \<and> construction_fails doomed_flow 1
   \<and> int 1 < max 1 (WorkerCount (Info doomed_flow))
   \<and> caller (Start sample_env doomed_flow sample_schedule) = Waiting
   \<and> FlowWillEnd_call \<notin> set (calls (Start sample_env doomed_flow sample_schedule))
   \<and> producer (Start sample_env doomed_flow sample_schedule) = Ended
   \<and> workChan (Start sample_env doomed_flow sample_schedule) = []
   \<and> wait (Start sample_env doomed_flow sample_schedule) = 1
   \<and> terminal_infos (calls (Start sample_env doomed_flow sample_schedule)) = [Some (item ''a'')]"
proof -
  have h: "starts sample_env doomed_flow" "construction_fails doomed_flow 1"
    "int 1 < max 1 (WorkerCount (Info doomed_flow))"
    by (simp_all add: starts_def construction_fails_def doomed_flow_def sample_flow_def
          sample_listener_def Flow_Check_def Info_Check_def)
  show ?thesis
    using h C2_construction_failure[OF h, of sample_schedule] doomed_run by simp
qed

section \<open>Batches\<close>

lemma producer_iteration_admitted:
  assumes "WorkProvider_Provide wp n = (hasMore, Some w, None)" and "Work w \<noteq> None"
  shows "producer_iteration E f wp past n workList
           = (Provide_call # fst (admit E f past w),
              case snd (admit E f past w) of
                Admitted \<Rightarrow>
                  Some (if DoWorkInfoListMaxCount f \<le> int (length (workList @ [w]))
                        then Sending (workList @ [w]) else Looping (workList @ [w]))
              | Skipped \<Rightarrow> Some (Looping workList)
              | Panicked \<Rightarrow> None)"
  using assms
  by (cases "admit E f past w")
     (auto simp: producer_iteration_def Let_def split: Admission.splits)

lemma producer_iteration_end:
  assumes "WorkProvider_Provide wp n = (False, workInfo, None)"
    and "workInfo = None \<or> (\<exists>w. workInfo = Some w \<and> Work w = None)"
  shows "producer_iteration E f wp past n workList
           = ([Provide_call], Some (if workList = [] then Closing else Flushing workList))"
  using assms by (auto simp: producer_iteration_def after_loop_def)

text \<open>
  Claim C9: under every schedule, every batch that the producer has sent on the channel,
  and every batch in the channel, has at least 1 and at most \<^verbatim>\<open>DoWorkInfoListMaxCount\<close>
  WorkInfos (the value after \<^verbatim>\<open>Flow.Check\<close>), and the buffer at the head of the loop is
  shorter than that. The iteration that admits a WorkInfo appends it to the buffer and,
  if the buffer has reached \<^verbatim>\<open>DoWorkInfoListMaxCount\<close>, goes to send it at once, the
  next buffer being empty. The iteration that ends the loop goes to send the buffer if
  it is not empty, and to close the channel without a send if it is empty; after the
  last send the channel is closed.
\<close>

theorem C9_batching_bounds:
  "(\<forall>b \<in> set (sent (calls (Start E f sched))).
       1 \<le> length b \<and> int (length b) \<le> DoWorkInfoListMaxCount (fst (Flow_Check E f)))
   \<and> (\<forall>b \<in> set (workChan (Start E f sched)).
       1 \<le> length b \<and> int (length b) \<le> DoWorkInfoListMaxCount (fst (Flow_Check E f)))
   \<and> (\<forall>workList. producer (Start E f sched) = Looping workList \<longrightarrow>
         int (length workList) < DoWorkInfoListMaxCount (fst (Flow_Check E f)))
   \<and> (WorkProvider_Provide wp n = (hasMore, Some w, None) \<and> Work w \<noteq> None
        \<and> snd (admit E f' past w) = Admitted \<longrightarrow>
         snd (producer_iteration E f' wp past n workList)
           = Some (if DoWorkInfoListMaxCount f' \<le> int (length workList) + 1
                   then Sending (workList @ [w]) else Looping (workList @ [w])))
   \<and> (WorkProvider_Provide wp n = (False, workInfo, None)
        \<and> (workInfo = None \<or> (\<exists>w. workInfo = Some w \<and> Work w = None)) \<longrightarrow>
         producer_iteration E f' wp past n workList
           = ([Provide_call], Some (if workList = [] then Closing else Flushing workList)))
   \<and> (\<not> panicked s \<and> int (length (workChan s)) < WorkerCount (Info f') \<longrightarrow>
        (producer s = Sending workList \<longrightarrow>
           step E f' ProducerG s
             = s\<lparr>calls := calls s @ [Send workList], workChan := workChan s @ [workList],
                 producer := Looping []\<rparr>)
        \<and> (producer s = Flushing workList \<longrightarrow>
           step E f' ProducerG s
             = s\<lparr>calls := calls s @ [Send workList], workChan := workChan s @ [workList],
                 producer := Closing\<rparr>))
   \<and> (\<not> panicked s \<and> producer s = Closing \<longrightarrow>
        step E f' ProducerG s
          = s\<lparr>calls := calls s @ [Close], workChanClosed := True, producer := Ended\<rparr>)"
proof -
  have b: "batching (fst (Flow_Check E f)) (Start E f sched)"
  proof (cases rule: Start_cases[of E f sched])
    case (refused cs)
    then show ?thesis by (auto simp: batching_def not_started_def sent_def)
  next
    case (runs f1)
    then show ?thesis using consistent_run[of f1 E sched] by (simp add: consistent_def)
  qed
  have 1: "\<forall>b \<in> set (sent (calls (Start E f sched))).
       1 \<le> length b \<and> int (length b) \<le> DoWorkInfoListMaxCount (fst (Flow_Check E f))"
    using b by (simp add: batching_def batch_ok_def)
  have 2: "\<forall>b \<in> set (workChan (Start E f sched)).
       1 \<le> length b \<and> int (length b) \<le> DoWorkInfoListMaxCount (fst (Flow_Check E f))"
    using b by (simp add: batching_def batch_ok_def)
  have 3: "\<forall>workList. producer (Start E f sched) = Looping workList \<longrightarrow>
         int (length workList) < DoWorkInfoListMaxCount (fst (Flow_Check E f))"
    using b by (auto simp add: batching_def)
  have 4: "WorkProvider_Provide wp n = (hasMore, Some w, None) \<and> Work w \<noteq> None
        \<and> snd (admit E f' past w) = Admitted \<longrightarrow>
         snd (producer_iteration E f' wp past n workList)
           = Some (if DoWorkInfoListMaxCount f' \<le> int (length workList) + 1
                   then Sending (workList @ [w]) else Looping (workList @ [w]))"
    by (auto simp: producer_iteration_admitted)
  have 5: "WorkProvider_Provide wp n = (False, workInfo, None)
        \<and> (workInfo = None \<or> (\<exists>w. workInfo = Some w \<and> Work w = None)) \<longrightarrow>
         producer_iteration E f' wp past n workList
           = ([Provide_call], Some (if workList = [] then Closing else Flushing workList))"
    using producer_iteration_end[of wp n workInfo E f' past workList] by blast
  have 6: "\<not> panicked s \<and> int (length (workChan s)) < WorkerCount (Info f') \<longrightarrow>
        (producer s = Sending workList \<longrightarrow>
           step E f' ProducerG s
             = s\<lparr>calls := calls s @ [Send workList], workChan := workChan s @ [workList],
                 producer := Looping []\<rparr>)
        \<and> (producer s = Flushing workList \<longrightarrow>
           step E f' ProducerG s
             = s\<lparr>calls := calls s @ [Send workList], workChan := workChan s @ [workList],
                 producer := Closing\<rparr>)"
    by (simp add: step_def producer_step_def)
  have 7: "\<not> panicked s \<and> producer s = Closing \<longrightarrow>
        step E f' ProducerG s
          = s\<lparr>calls := calls s @ [Close], workChanClosed := True, producer := Ended\<rparr>"
    by (simp add: step_def producer_step_def)
  show ?thesis using 1 2 3 4 5 6 7 by blast
qed

lemma three_run:
  "sent (calls (Start sample_env three_flow batch_schedule))
     = [[item ''a'', item ''b''], [item ''c'']]
   \<and> DoWorkInfoListMaxCount (fst (Flow_Check sample_env three_flow)) = 2
   \<and> DoWorkInfoListMaxCount three_flow = 2
   \<and> workChan (Start sample_env three_flow (take 3 batch_schedule)) = [[item ''a'', item ''b'']]
   \<and> producer (Start sample_env three_flow (take 4 batch_schedule)) = Looping [item ''c'']
   \<and> WorkProvider_Provide three_script 1 = (True, Some (item ''b''), None)
   \<and> Work (item ''b'') \<noteq> None
   \<and> snd (admit sample_env three_flow [] (item ''b'')) = Admitted
   \<and> WorkProvider_Provide three_script 3 = (False, None, None)
   \<and> \<not> panicked (Start sample_env three_flow (take 2 batch_schedule))
   \<and> int (length (workChan (Start sample_env three_flow (take 2 batch_schedule))))
        < WorkerCount (Info three_flow)
   \<and> producer (Start sample_env three_flow (take 2 batch_schedule))
        = Sending [item ''a'', item ''b'']
   \<and> \<not> panicked (Start sample_env three_flow (take 7 batch_schedule))
   \<and> int (length (workChan (Start sample_env three_flow (take 7 batch_schedule))))
        < WorkerCount (Info three_flow)
   \<and> producer (Start sample_env three_flow (take 7 batch_schedule)) = Flushing [item ''c'']
   \<and> \<not> panicked (Start sample_env three_flow (take 8 batch_schedule))
   \<and> producer (Start sample_env three_flow (take 8 batch_schedule)) = Closing"
  by code_simp

theorem C9_batching_bounds_witness:
  "sent (calls (Start sample_env three_flow batch_schedule))
     = [[item ''a'', item ''b''], [item ''c'']]
   \<and> DoWorkInfoListMaxCount (fst (Flow_Check sample_env three_flow)) = 2
   \<and> workChan (Start sample_env three_flow (take 3 batch_schedule)) = [[item ''a'', item ''b'']]
   \<and> producer (Start sample_env three_flow (take 4 batch_schedule)) = Looping [item ''c'']
   \<and> WorkProvider_Provide three_script 1 = (True, Some (item ''b''), None)
   \<and> Work (item ''b'') \<noteq> None
   \<and> snd (admit sample_env three_flow [] (item ''b'')) = Admitted
   \<and> snd (producer_iteration sample_env three_flow three_script [] 1 [item ''a''])
       = Some (Sending [item ''a'', item ''b''])
   \<and> WorkProvider_Provide three_script 3 = (False, None, None)
   \<and> producer_iteration sample_env three_flow three_script [] 3 [item ''c'']
       = ([Provide_call], Some (Flushing [item ''c'']))
   \<and> producer (Start sample_env three_flow (take 2 batch_schedule))
        = Sending [item ''a'', item ''b'']
   \<and> producer (step sample_env three_flow ProducerG
                  (Start sample_env three_flow (take 2 batch_schedule))) = Looping []
   \<and> producer (Start sample_env three_flow (take 7 batch_schedule)) = Flushing [item ''c'']
   \<and> producer (step sample_env three_flow ProducerG
                  (Start sample_env three_flow (take 7 batch_schedule))) = Closing
   \<and> producer (Start sample_env three_flow (take 8 batch_schedule)) = Closing
   \<and> producer (step sample_env three_flow ProducerG
                  (Start sample_env three_flow (take 8 batch_schedule))) = Ended"
  using three_run
        C9_batching_bounds[of sample_env three_flow batch_schedule three_script 1 True
          "item ''b''" three_flow "[]" "[item ''a'']" None
          "Start sample_env three_flow (take 8 batch_schedule)"]
        C9_batching_bounds[of sample_env three_flow "take 3 batch_schedule" three_script 3 True
          "item ''b''" three_flow "[]" "[item ''c'']" None
          "Start sample_env three_flow (take 7 batch_schedule)"]
        C9_batching_bounds[of sample_env three_flow "take 4 batch_schedule" three_script 3 True
          "item ''b''" three_flow "[]" "[item ''a'', item ''b'']" None
          "Start sample_env three_flow (take 2 batch_schedule)"]
  by simp

section \<open>Coverage\<close>

lemma count_emitted:
  assumes "Work w \<noteq> None"
  shows "count (mset (emitted answer)) (Some w) = (if fst (snd answer) = Some w then 1 else 0)"
  using assms
  by (cases answer) (auto simp: emitted_def split: option.splits)

lemma count_emitted_until:
  assumes "Work w \<noteq> None"
  shows "count (mset (emitted_until wp n)) (Some w) = emissions wp n w"
proof (induction n)
  case 0
  then show ?case by (simp add: emitted_until_def emissions_def)
next
  case (Suc n)
  have "emissions wp (Suc n) w
          = emissions wp n w + (if fst (snd (WorkProvider_Provide wp n)) = Some w then 1 else 0)"
    by (simp add: emissions_def)
  with Suc show ?case
    by (simp add: emitted_until_Suc count_emitted[OF assms])
qed

lemma count_terminal: "count (mset (terminal_infos cs)) (Some w) = terminal_events cs w"
proof -
  have "count (mset xs) x = length (filter (\<lambda>y. y = x) xs)" for xs :: "WorkInfo option list" and x
    by (induction xs) simp_all
  then show ?thesis by (simp add: terminal_events_def)
qed

lemma in_flight_Exited: "(\<And>c. c \<in> set xs \<Longrightarrow> c = Exited) \<Longrightarrow> in_flight xs = {#}"
proof (induction xs)
  case Nil
  then show ?case by (simp add: in_flight_def)
next
  case (Cons a xs)
  then have "a = Exited" and "in_flight xs = {#}" by simp_all
  then show ?case by (simp add: in_flight_def)
qed

lemma settled_returned:
  assumes "settled f wp s" and "checked f"
    and "caller s = Returned" and "\<not> interrupt s"
    and "\<not> (workErrorHappened s \<and> StopWhenWorkError (Info f))"
  shows "mset (terminal_infos (calls s)) = mset (emitted_until wp (provided s))"
proof -
  have c: "consistent f s" and ex: "exits f s" and ac: "accounted wp s"
    using assms(1) by (simp_all add: settled_def)
  have "wait s = 0"
    using c assms(3) by (simp add: consistent_def returned_late_def)
  then have z: "sum_list (map live (consumers s)) = 0"
    using c by (simp add: consistent_def wait_counts_def)
  then have all: "\<And>x. x \<in> set (consumers s) \<Longrightarrow> x = Exited"
    by (rule sum_live_zero)
  have "0 < length (consumers s)"
    using c assms(2) by (simp add: consistent_def checked_def)
  then have "consumers s ! 0 = Exited"
    using all by simp
  then have closed: "workChanClosed s" and empty: "workChan s = []"
    using ex assms(4,5) \<open>0 < length (consumers s)\<close> by (auto simp: exits_def)
  then have ended: "producer s = Ended"
    using c by (simp add: consistent_def closing_def)
  then have "\<not> panicked s"
    using c by (auto simp: consistent_def quiet_panic_def)
  then show ?thesis
    using ac assms(4) ended empty in_flight_Exited[OF all]
    by (simp add: accounted_def)
qed

lemma sample_run:
  "caller (Start sample_env sample_flow sample_schedule) = Returned
   \<and> \<not> interrupt (Start sample_env sample_flow sample_schedule)
   \<and> \<not> workErrorHappened (Start sample_env sample_flow sample_schedule)
   \<and> provided (Start sample_env sample_flow sample_schedule) = 2
   \<and> terminal_events (calls (Start sample_env sample_flow sample_schedule)) (item ''a'') = 1"
  by code_simp

lemma good_worker_aligned: "aligned_worker good_worker"
  by (simp add: aligned_worker_def good_worker_def good_record_def comp_def)

text \<open>
  Claim C1, as stated, at a concrete input: the provider emits one WorkInfo with
  non-nil Work, and \<^verbatim>\<open>DoWork\<close> returns no record and a batch error for its batch. The
  consumer leaves its loop at line 180; \<^verbatim>\<open>Start\<close> returns, the interrupt flag was never
  raised, and none of OnWorkSuccess, OnWorkFail, OnWorkSkip has fired for the WorkInfo.
\<close>

theorem C1_coverage_counterexample:
  "WorkProvider_Provide (script [(True, Some (item ''a''), None)]) 0
     = (True, Some (item ''a''), None)
   \<and> Work (item ''a'') = Some 0
   \<and> DoWork broken_worker 0 [item ''a''] = ([], Some \<lparr>Code = 5, Desc = ''down''\<rparr>)
   \<and> caller (Start sample_env broken_flow sample_schedule) = Returned
   \<and> \<not> interrupt (Start sample_env broken_flow sample_schedule)
   \<and> provided (Start sample_env broken_flow sample_schedule) = 2
   \<and> emissions (script [(True, Some (item ''a''), None)]) 2 (item ''a'') = 1
   \<and> DoWork_call 0 [item ''a''] \<in> set (calls (Start sample_env broken_flow sample_schedule))
   \<and> terminal_infos (calls (Start sample_env broken_flow sample_schedule)) = []
   \<and> terminal_events (calls (Start sample_env broken_flow sample_schedule)) (item ''a'') \<noteq> 1"
  by code_simp

text \<open>
  Claim C1, amended: take a run of \<^verbatim>\<open>Start\<close> that has returned, in which the
  interrupt flag is not raised, no consumer has stopped for \<^verbatim>\<open>StopWhenWorkError\<close> (the
  flow has no work error or does not stop on one), and every \<^verbatim>\<open>DoWork\<close> call returns
  one record for each WorkInfo of its batch, positionally aligned. Then for every
  WorkInfo with non-nil Work the number of terminal events (OnWorkSuccess, OnWorkFail,
  OnWorkSkip) fired for it is the number of times the provider has emitted it: exactly
  one terminal event for each emission. More generally the terminal events are, as a
  multiset, the WorkInfos of the answers with an error and of the answers with non-nil
  Work. The claim is not made for a run in which a \<^verbatim>\<open>DoWork\<close> call returns an empty
  record list with a non-nil batch error.
\<close>

theorem C1_coverage_amended:
  assumes "WorkProvider f = Some wp"
    and "\<forall>p i. WorkerProvider f = Some p \<longrightarrow>
           aligned_worker (fst (WorkerProvider_Provide p i))"
    and "caller (Start E f sched) = Returned"
    and "\<not> interrupt (Start E f sched)"
    and "\<not> (workErrorHappened (Start E f sched) \<and> StopWhenWorkError (Info f))"
    and "Work w \<noteq> None"
  shows "terminal_events (calls (Start E f sched)) w
           = emissions wp (provided (Start E f sched)) w
       \<and> mset (terminal_infos (calls (Start E f sched)))
           = mset (emitted_until wp (provided (Start E f sched)))"
proof -
  have m: "mset (terminal_infos (calls (Start E f sched)))
           = mset (emitted_until wp (provided (Start E f sched)))"
  proof (cases rule: Start_cases[of E f sched])
    case (refused cs)
    then show ?thesis
      by (auto simp: not_started_def terminal_infos_def emitted_until_def)
  next
    case (runs f1)
    have wp: "WorkProvider f1 = Some wp"
      using Flow_Check_ok(10)[OF runs(2)] assms(1) by simp
    have al: "\<forall>p i. WorkerProvider f1 = Some p \<longrightarrow>
           aligned_worker (fst (WorkerProvider_Provide p i))"
      using Flow_Check_ok(11)[OF runs(2)] assms(2) by simp
    have st: "StopWhenWorkError (Info f1) = StopWhenWorkError (Info f)"
      using Flow_Check_ok(12)[OF runs(2)] .
    have "settled f1 wp (run E f1 sched (started f1))"
      using runs(3) wp al by (rule settled_run)
    then show ?thesis
      using settled_returned[of f1 wp "run E f1 sched (started f1)"] runs(3,4) assms(3,4,5) st
      by simp
  qed
  have "count (mset (terminal_infos (calls (Start E f sched)))) (Some w)
          = count (mset (emitted_until wp (provided (Start E f sched)))) (Some w)"
    using m by simp
  then have "terminal_events (calls (Start E f sched)) w
           = emissions wp (provided (Start E f sched)) w"
    by (simp add: count_terminal count_emitted_until[OF assms(6)])
  with m show ?thesis by simp
qed

theorem C1_coverage_amended_witness:
  "WorkProvider sample_flow = Some (script [(True, Some (item ''a''), None)])
   \<and> aligned_worker good_worker
   \<and> caller (Start sample_env sample_flow sample_schedule) = Returned
   \<and> \<not> interrupt (Start sample_env sample_flow sample_schedule)
   \<and> \<not> workErrorHappened (Start sample_env sample_flow sample_schedule)
   \<and> Work (item ''a'') \<noteq> None
   \<and> provided (Start sample_env sample_flow sample_schedule) = 2
   \<and> emissions (script [(True, Some (item ''a''), None)]) 2 (item ''a'') = 1
   \<and> terminal_events (calls (Start sample_env sample_flow sample_schedule)) (item ''a'') = 1"
proof -
  have wp: "WorkProvider sample_flow = Some (script [(True, Some (item ''a''), None)])"
    by (simp add: sample_flow_def)
  have al: "\<forall>p i. WorkerProvider sample_flow = Some p \<longrightarrow>
           aligned_worker (fst (WorkerProvider_Provide p i))"
    by (simp add: sample_flow_def good_worker_aligned)
  have w: "Work (item ''a'') \<noteq> None"
    by (simp add: item_def)
  have r: "caller (Start sample_env sample_flow sample_schedule) = Returned"
    "\<not> interrupt (Start sample_env sample_flow sample_schedule)"
    "\<not> (workErrorHappened (Start sample_env sample_flow sample_schedule)
        \<and> StopWhenWorkError (Info sample_flow))"
    using sample_run by simp_all
  show ?thesis
    using C1_coverage_amended[OF wp al r w] sample_run wp w good_worker_aligned by simp
qed


end
